theory Spec2Isabelle
  imports Main "HOL-Library.Word"
begin

unbundle bit_operations_syntax

section \<open>Data model of the LUT finder\<close>

text \<open>
  Modelled from the spec: the literal type is declared in a header that is not among
  the sources.  A literal is a (variable, sign) pair; \<open>sign\<close> is \<open>True\<close> for a negated
  literal, as the row masks built from \<open>l.sign()\<close> require.
\<close>

datatype literal = Lit (var: nat) (sign: bool)

text \<open>
  Modelled from the spec: the clause type is declared in a header that is not among the
  sources.  A clause is an ordered sequence of literals with the mutable flags
  \<open>removed\<close>, \<open>learned\<close> and \<open>used\<close>.
\<close>

record clause =
  lits :: "literal list"
  was_removed :: bool
  is_learned :: bool
  was_used :: bool

text \<open>
  Modelled from the spec: the watch-list entry is declared in a header that is not among
  the sources.  An entry exposes whether it is a binary-clause entry and the paired
  literal.
\<close>

record watched =
  is_binary_clause :: bool
  get_literal :: literal

text \<open>
  Modelled from the spec: the class declaration of \<open>lut_finder\<close> and the solver are not
  among the sources.  The fields are those the code reads and writes, and those of the
  solver \<open>s\<close> it touches (named \<open>s_\<close>): the clause vectors, the clause store \<open>s_heap\<close>
  into which clause pointers are addresses, the watch lists and the visited marks
  (\<open>init_visited\<close> empties the set, \<open>mark_visited\<close> inserts, \<open>is_visited\<close> is
  membership).  \<open>m_combination\<close> is the 64-bit combination word, \<open>m_num_combinations\<close>
  the count of witnessed rows, \<open>m_masks\<close> the mask table indexed by input position,
  \<open>on_lut\<close> the sequence of calls made to the callback \<open>m_on_lut\<close> so far.  Arrays
  indexed by a variable are functions of the variable.
\<close>

record lut_finder =
  s_num_vars :: nat
  s_m_clauses :: "nat list"
  s_m_learned :: "nat list"
  s_heap :: "nat \<Rightarrow> clause"
  s_wlist :: "literal \<Rightarrow> watched list"
  s_visited :: "nat set"
  m_max_lut_size :: nat
  m_combination :: "64 word"
  m_num_combinations :: nat
  m_masks :: "nat \<Rightarrow> 64 word"
  m_vars :: "nat list"
  m_var_position :: "nat \<Rightarrow> nat"
  m_clause :: "literal option list"
  m_missing :: "nat list"
  m_clauses_to_remove :: "nat list"
  m_removed_clauses :: "nat list"
  m_clause_filters :: "nat \<Rightarrow> (32 word \<times> nat) list"
  on_lut :: "(64 word \<times> nat list \<times> nat) list"

section \<open>The mask table\<close>

text \<open>
  The loop of \<open>init_mask\<close>: \<open>while (w < 64) { m |= (m << w); w *= 2; }\<close>.  It does not
  terminate from \<open>w = 0\<close>, hence the option-valued partial function.
\<close>

partial_function (option) init_mask_loop :: "64 word \<Rightarrow> nat \<Rightarrow> 64 word option" where
  "init_mask_loop m w =
     (if w < 64 then init_mask_loop (m OR push_bit w m) (w * 2) else Some m)"

declare init_mask_loop.simps [code]

text \<open>
  \<open>init_mask(i)\<close> stores the computed mask at \<open>m_masks[i]\<close>.  \<open>SASSERT(i <= 6)\<close> is the
  \<open>None\<close> branch.
\<close>

definition init_mask :: "nat \<Rightarrow> lut_finder \<Rightarrow> lut_finder option" where
  "init_mask i st =
     (if \<not> i \<le> 6 then None
      else case (if i = 6 then Some (NOT 0)
                 else init_mask_loop (push_bit ((2::nat) ^ i) 1 - 1) (2 ^ (i + 1))) of
             None \<Rightarrow> None
           | Some m \<Rightarrow> Some (st\<lparr>m_masks := (m_masks st)(i := m)\<rparr>))"

section \<open>The combination accumulator\<close>

text \<open>
  Modelled from the spec: \<open>get_combination\<close> is declared in the header
  \<open>sat_lut_finder.h\<close>, which is not among the sources.  Row \<open>mask\<close> is witnessed when
  bit \<open>mask\<close> of the combination word is set.
\<close>

definition get_combination :: "32 word \<Rightarrow> lut_finder \<Rightarrow> bool" where
  "get_combination msk st = bit (m_combination st) (unat msk)"

text \<open>
  Modelled from the spec: \<open>set_combination\<close> is declared in the header
  \<open>sat_lut_finder.h\<close>, which is not among the sources.  The spec's \<open>setRow(mask)\<close>: if
  bit \<open>mask\<close> is unset, set it and increment the witnessed count.  A row outside the
  64-bit word has no bit; that is the \<open>None\<close> branch.
\<close>

definition set_combination :: "32 word \<Rightarrow> lut_finder \<Rightarrow> lut_finder option" where
  "set_combination msk st =
     (if \<not> unat msk < 64 then None
      else if get_combination msk st then Some st
      else Some (st\<lparr>m_combination := m_combination st OR push_bit (unat msk) 1,
                    m_num_combinations := m_num_combinations st + 1\<rparr>))"

text \<open>
  \<open>lut_is_defined(i, sz)\<close>.  The word is shifted right by \<open>2^i\<close> bits, which C++ defines
  only below 64, that is for \<open>i < 6\<close>.
\<close>

definition lut_is_defined_var :: "nat \<Rightarrow> nat \<Rightarrow> lut_finder \<Rightarrow> bool option" where
  "lut_is_defined_var i sz st =
     (if \<not> i < 6 then None
      else let c = m_combination st OR drop_bit ((2::nat) ^ i) (m_combination st);
               m = m_masks st i;
               m = (if sz < 6 then m AND (push_bit sz 1 - 1) else m)
           in Some (c AND m = m))"

text \<open>The scan \<open>for (i = 0; i < sz; ++i) if (lut_is_defined(i, sz)) return true;\<close>.\<close>

function lut_is_defined_scan :: "nat \<Rightarrow> nat \<Rightarrow> lut_finder \<Rightarrow> bool option" where
  "lut_is_defined_scan i sz st =
     (if i < sz then
        (case lut_is_defined_var i sz st of
           None \<Rightarrow> None
         | Some True \<Rightarrow> Some True
         | Some False \<Rightarrow> lut_is_defined_scan (i + 1) sz st)
      else Some False)"
  by pat_completeness auto
termination
  by (relation "measure (\<lambda>(i, sz, st). sz - i)") auto

declare lut_is_defined_scan.simps [simp del]

text \<open>
  \<open>lut_is_defined(sz)\<close>.  The shift \<open>1ull << (sz/2)\<close> is defined for \<open>sz/2 < 64\<close> only.
\<close>

definition lut_is_defined :: "nat \<Rightarrow> lut_finder \<Rightarrow> bool option" where
  "lut_is_defined sz st =
     (if \<not> sz div 2 < 64 then None
      else if m_num_combinations st < 2 ^ (sz div 2) then Some False
      else lut_is_defined_scan 0 sz st)"

text \<open>
  The inner loop of \<open>update_combinations\<close>: bit \<open>i\<close> of the counter \<open>k\<close> decides whether
  the missing position \<open>m_missing[i]\<close> is set in \<open>mask2\<close>.
\<close>

function update_combinations_inner :: "nat list \<Rightarrow> nat \<Rightarrow> nat \<Rightarrow> 32 word \<Rightarrow> 32 word" where
  "update_combinations_inner missing k i mask2 =
     (if i < length missing then
        update_combinations_inner missing k (i + 1)
          (if bit k i then mask2 OR push_bit (missing ! i) 1 else mask2)
      else mask2)"
  by pat_completeness auto
termination
  by (relation "measure (\<lambda>(missing, k, i, mask2). length missing - i)") auto

declare update_combinations_inner.simps [simp del]

text \<open>The outer loop: \<open>for (k = 0; k < (1ul << num_missing); ++k) set_combination(mask2)\<close>.\<close>

function update_combinations_loop ::
  "nat list \<Rightarrow> 32 word \<Rightarrow> nat \<Rightarrow> lut_finder \<Rightarrow> lut_finder option" where
  "update_combinations_loop missing msk k st =
     (if k < 2 ^ length missing then
        (case set_combination (update_combinations_inner missing k 0 msk) st of
           None \<Rightarrow> None
         | Some st' \<Rightarrow> update_combinations_loop missing msk (k + 1) st')
      else Some st)"
  by pat_completeness auto
termination
  by (relation "measure (\<lambda>(missing, msk, k, st). 2 ^ length missing - k)") auto

declare update_combinations_loop.simps [simp del]

text \<open>
  \<open>update_combinations(mask)\<close>.  The counter \<open>k\<close> and the shift \<open>1 << i\<close> are 32-bit and
  \<open>1ul << m_missing[i]\<close> is a 64-bit shift: with 32 or more missing positions, or a
  position of 64 or more, the C++ is undefined (\<open>None\<close>).
\<close>

definition update_combinations :: "32 word \<Rightarrow> lut_finder \<Rightarrow> (bool \<times> lut_finder) option" where
  "update_combinations msk st =
     (if \<not> (length (m_missing st) < 32 \<and> (\<forall>p \<in> set (m_missing st). p < 64)) then None
      else case update_combinations_loop (m_missing st) msk 0 st of
             None \<Rightarrow> None
           | Some st' \<Rightarrow>
               (case lut_is_defined (length (m_vars st')) st' of
                  None \<Rightarrow> None
                | Some b \<Rightarrow> Some (b, st')))"

section \<open>Truth-table extraction\<close>

text \<open>
  The search loop of \<open>convert_combination\<close>: the first position \<open>i\<close> at or after the
  start with \<open>lut_is_defined(i, sz)\<close>, or \<open>sz\<close> when there is none.
\<close>

function convert_combination_find :: "nat \<Rightarrow> nat \<Rightarrow> lut_finder \<Rightarrow> nat option" where
  "convert_combination_find i sz st =
     (if i < sz then
        (case lut_is_defined_var i sz st of
           None \<Rightarrow> None
         | Some True \<Rightarrow> Some i
         | Some False \<Rightarrow> convert_combination_find (i + 1) sz st)
      else Some i)"
  by pat_completeness auto
termination
  by (relation "measure (\<lambda>(i, sz, st). sz - i)") auto

declare convert_combination_find.simps [simp del]

text \<open>
  The loop of \<open>case 0\<close>, over \<open>j < (1u << vars.size())\<close> with \<open>n = vars.size()\<close> after the
  erase: \<open>if (0 == (m_combination & (1ull << 2*j))) r |= (1ull << j)\<close>.
\<close>

function convert_combination_fold :: "nat \<Rightarrow> nat \<Rightarrow> 64 word \<Rightarrow> lut_finder \<Rightarrow> 64 word" where
  "convert_combination_fold n j r st =
     (if j < 2 ^ n then
        convert_combination_fold n (j + 1)
          (if \<not> bit (m_combination st) (2 * j) then r OR push_bit j 1 else r) st
      else r)"
  by pat_completeness auto
termination
  by (relation "measure (\<lambda>(n, j, r, st). 2 ^ n - j)") auto

declare convert_combination_fold.simps [simp del]

text \<open>
  \<open>convert_combination(vars, v)\<close> returns the truth table, the variable list after the
  erase and the chosen variable \<open>v\<close>.  \<open>SASSERT(lut_is_defined(vars.size()))\<close> fails
  when the function is not defined, \<open>SASSERT(i < vars.size())\<close> and the read \<open>vars[i]\<close>
  when no position is; both are \<open>None\<close>.  \<open>vars.erase(v)\<close> removes the first
  occurrence of \<open>v\<close>.  The locals \<open>stride_sz\<close> and \<open>num_strides\<close> are computed and
  never read.  In \<open>case 0\<close> the shift \<open>1ull << 2*j\<close> stays below 64 bits only when at
  most five variables remain.  \<open>case 1\<close> has a loop with an empty body and \<open>default\<close>
  does nothing.
\<close>

definition convert_combination ::
  "nat list \<Rightarrow> lut_finder \<Rightarrow> (64 word \<times> nat list \<times> nat) option" where
  "convert_combination vars st =
     (case lut_is_defined (length vars) st of
        None \<Rightarrow> None
      | Some False \<Rightarrow> None
      | Some True \<Rightarrow>
          (case convert_combination_find 0 (length vars) st of
             None \<Rightarrow> None
           | Some i \<Rightarrow>
               if \<not> i < length vars then None
               else let v = vars ! i; vars' = remove1 v vars; r = (0 :: 64 word)
                    in (case i of
                          0 \<Rightarrow> if \<not> length vars' \<le> 5 then None
                               else Some (convert_combination_fold (length vars') 0 r st, vars', v)
                        | Suc 0 \<Rightarrow> Some (r, vars', v)
                        | Suc (Suc _) \<Rightarrow> Some (r, vars', v))))"

section \<open>The clause filter\<close>

text \<open>\<open>get_clause_filter\<close>: \<open>filter |= 1 << (l.var() % 32)\<close> over the literals of the clause.\<close>

primrec get_clause_filter_loop :: "literal list \<Rightarrow> 32 word \<Rightarrow> 32 word" where
  "get_clause_filter_loop [] filt = filt"
| "get_clause_filter_loop (l # ls) filt =
     get_clause_filter_loop ls (filt OR push_bit (var l mod 32) 1)"

definition get_clause_filter :: "clause \<Rightarrow> 32 word" where
  "get_clause_filter c = get_clause_filter_loop (lits c) 0"

section \<open>The candidate search\<close>

text \<open>
  The results of the search routines: the failure of an assertion of the source (with
  its line), or an operation that C++ leaves undefined or that the accumulator model
  rejects.
\<close>

datatype error = Assertion nat | Undefined

text \<open>
  Modelled from the spec: the negation of a literal (\<open>l.neg()\<close>, \<open>~l\<close>) is declared
  with the literal type, which is not among the sources.  It flips the sign.  The index
  of a literal, of which the spec fixes nothing but that it is stable, is the parameter
  \<open>idx\<close> of the routines below.
\<close>

definition neg :: "literal \<Rightarrow> literal" where
  "neg l = Lit (var l) (\<not> sign l)"

text \<open>
  Modelled from the spec: \<open>mark_used\<close> is declared with the clause type, which is not
  among the sources.  It sets the \<open>used\<close> flag of the clause at address \<open>a\<close>.
\<close>

definition mark_used :: "nat \<Rightarrow> lut_finder \<Rightarrow> lut_finder" where
  "mark_used a st = st\<lparr>s_heap := (s_heap st)(a := (s_heap st a)\<lparr>was_used := True\<rparr>)\<rparr>"

text \<open>
  Modelled from the spec: \<open>unmark_used\<close> is declared with the clause type, which is not
  among the sources.  It clears the \<open>used\<close> flag of the clause at address \<open>a\<close>.
\<close>

definition unmark_used :: "nat \<Rightarrow> lut_finder \<Rightarrow> lut_finder" where
  "unmark_used a st = st\<lparr>s_heap := (s_heap st)(a := (s_heap st a)\<lparr>was_used := False\<rparr>)\<rparr>"

text \<open>
  Modelled from the spec: the solver's \<open>all_distinct\<close> is not among the sources.
  \<open>allDistinctVariables(clause)\<close> is true if no variable repeats in the clause.
\<close>

definition all_distinct :: "clause \<Rightarrow> bool" where
  "all_distinct c = distinct (map var (lits c))"

text \<open>
  \<open>add_lut\<close>.  The debug check that every clause to remove is marked used, the append
  to \<open>m_removed_clauses\<close>, the conversion (which erases the chosen variable from
  \<open>m_vars\<close>, passed by reference) and the callback.
\<close>

definition add_lut :: "lut_finder \<Rightarrow> error + lut_finder" where
  "add_lut st =
     (if \<exists>a \<in> set (m_clauses_to_remove st). \<not> was_used (s_heap st a) then Inl (Assertion 107)
      else let st = st\<lparr>m_removed_clauses := m_removed_clauses st @ m_clauses_to_remove st\<rparr>
           in case convert_combination (m_vars st) st of
                None \<Rightarrow> Inl Undefined
              | Some (lut, vars, v) \<Rightarrow>
                  Inr (st\<lparr>m_vars := vars, on_lut := on_lut st @ [(lut, vars, v)]\<rparr>))"

text \<open>
  The loop of \<open>extract_lut(literal l1, literal l2)\<close> over \<open>i < m_vars.size()\<close>, carrying
  \<open>mask\<close> and \<open>m_missing\<close>.
\<close>

fun extract_lut_binary_loop ::
  "literal \<Rightarrow> literal \<Rightarrow> nat list \<Rightarrow> nat \<Rightarrow> 32 word \<Rightarrow> nat list \<Rightarrow> 32 word \<times> nat list" where
  "extract_lut_binary_loop l1 l2 [] i msk missing = (msk, missing)"
| "extract_lut_binary_loop l1 l2 (v # vs) i msk missing =
     (if v = var l1 then
        extract_lut_binary_loop l1 l2 vs (i + 1) (msk OR push_bit i (of_bool (sign l1))) missing
      else if v = var l2 then
        extract_lut_binary_loop l1 l2 vs (i + 1) (msk OR push_bit i (of_bool (sign l2))) missing
      else extract_lut_binary_loop l1 l2 vs (i + 1) msk (missing @ [i]))"

text \<open>
  \<open>extract_lut(literal l1, literal l2)\<close>.  The shifts \<open>sign << i\<close> are 32-bit, so more
  than 32 candidate variables are outside what C++ defines.
\<close>

definition extract_lut_binary :: "literal \<Rightarrow> literal \<Rightarrow> lut_finder \<Rightarrow> error + bool \<times> lut_finder" where
  "extract_lut_binary l1 l2 st =
     (if var l1 \<notin> s_visited st then Inl (Assertion 115)
      else if var l2 \<notin> s_visited st then Inl (Assertion 116)
      else if \<not> length (m_vars st) \<le> 32 then Inl Undefined
      else let (msk, missing) = extract_lut_binary_loop l1 l2 (m_vars st) 0 0 []
           in case update_combinations msk (st\<lparr>m_missing := missing\<rparr>) of
                None \<Rightarrow> Inl Undefined
              | Some r \<Rightarrow> Inr r)"

text \<open>
  The loops of \<open>extract_lut(clause& c2)\<close>: placing each literal of \<open>c2\<close> at the position
  of its variable (a write past the end of \<open>m_clause\<close> is \<open>None\<close>), and the scan of
  \<open>m_clause[j]\<close> for \<open>j < m_vars.size()\<close>, where \<open>None\<close> stands for \<open>null_literal\<close>.
\<close>

fun extract_lut_place ::
  "literal list \<Rightarrow> (nat \<Rightarrow> nat) \<Rightarrow> literal option list \<Rightarrow> literal option list option" where
  "extract_lut_place [] pos mc = Some mc"
| "extract_lut_place (l # ls) pos mc =
     (if pos (var l) < length mc then extract_lut_place ls pos (mc[pos (var l) := Some l])
      else None)"

fun extract_lut_scan ::
  "literal option list \<Rightarrow> nat \<Rightarrow> 32 word \<Rightarrow> nat list \<Rightarrow> 32 word \<times> nat list" where
  "extract_lut_scan [] j msk missing = (msk, missing)"
| "extract_lut_scan (None # mc) j msk missing = extract_lut_scan mc (j + 1) msk (missing @ [j])"
| "extract_lut_scan (Some lit # mc) j msk missing =
     extract_lut_scan mc (j + 1) (msk OR push_bit j (of_bool (sign lit))) missing"

text \<open>\<open>extract_lut(clause& c2)\<close>, for the clause at address \<open>a2\<close>.\<close>

definition extract_lut_clause :: "nat \<Rightarrow> lut_finder \<Rightarrow> error + bool \<times> lut_finder" where
  "extract_lut_clause a2 st =
     (let c2 = lits (s_heap st a2); n = length (m_vars st) in
      if \<exists>l \<in> set c2. var l \<notin> s_visited st then Inr (False, st)
      else let st = (if length c2 = n
                     then mark_used a2 (st\<lparr>m_clauses_to_remove := m_clauses_to_remove st @ [a2]\<rparr>)
                     else st)
           in if \<not> length c2 \<le> n then Inl (Assertion 144)
              else if \<not> n \<le> length (m_clause st) \<or> \<not> n \<le> 32 then Inl Undefined
              else case extract_lut_place c2 (m_var_position st)
                          (replicate n None @ drop n (m_clause st)) of
                     None \<Rightarrow> Inl Undefined
                   | Some mc \<Rightarrow>
                       let (msk, missing) = extract_lut_scan (take n mc) 0 0 []
                       in case update_combinations msk (st\<lparr>m_clause := mc, m_missing := missing\<rparr>) of
                            None \<Rightarrow> Inl Undefined
                          | Some r \<Rightarrow> Inr r)"

text \<open>
  The loops of \<open>check_lut\<close>.  Each returns \<open>True\<close> with the state after \<open>add_lut\<close> when
  an extension succeeded (the early \<open>return\<close>), \<open>False\<close> when it ran to its end.
  First the seeding loop over the literals of the clause.
\<close>

fun check_lut_seed :: "literal list \<Rightarrow> nat \<Rightarrow> 32 word \<Rightarrow> lut_finder \<Rightarrow> 32 word \<times> lut_finder" where
  "check_lut_seed [] i msk st = (msk, st)"
| "check_lut_seed (l # ls) i msk st =
     check_lut_seed ls (i + 1) (msk OR push_bit i (of_bool (sign l)))
       (st\<lparr>m_vars := m_vars st @ [var l],
           m_var_position := (m_var_position st)(var l := i),
           s_visited := insert (var l) (s_visited st)\<rparr>)"

text \<open>The loop over the clause filters \<open>m_clause_filters[l.var()]\<close>.\<close>

fun check_lut_filters ::
  "32 word \<Rightarrow> (32 word \<times> nat) list \<Rightarrow> lut_finder \<Rightarrow> error + bool \<times> lut_finder" where
  "check_lut_filters filt [] st = Inr (False, st)"
| "check_lut_filters filt (cf # cfs) st =
     (if filt = (filt OR fst cf) \<and> \<not> was_used (s_heap st (snd cf)) then
        (case extract_lut_clause (snd cf) st of
           Inl e \<Rightarrow> Inl e
         | Inr (True, st') \<Rightarrow> (case add_lut st' of Inl e \<Rightarrow> Inl e | Inr st'' \<Rightarrow> Inr (True, st''))
         | Inr (False, st') \<Rightarrow> check_lut_filters filt cfs st')
      else check_lut_filters filt cfs st)"

text \<open>
  The loop over the watch list \<open>s.get_wlist(l)\<close>; it runs once for the literal and once
  for its negation.
\<close>

fun check_lut_watches ::
  "(literal \<Rightarrow> nat) \<Rightarrow> literal \<Rightarrow> watched list \<Rightarrow> lut_finder \<Rightarrow> error + bool \<times> lut_finder" where
  "check_lut_watches idx l [] st = Inr (False, st)"
| "check_lut_watches idx l (w # ws) st =
     (if is_binary_clause w \<and> var (get_literal w) \<in> s_visited st \<and> idx (get_literal w) < idx l then
        (case extract_lut_binary (neg l) (get_literal w) st of
           Inl e \<Rightarrow> Inl e
         | Inr (True, st') \<Rightarrow> (case add_lut st' of Inl e \<Rightarrow> Inl e | Inr st'' \<Rightarrow> Inr (True, st''))
         | Inr (False, st') \<Rightarrow> check_lut_watches idx l ws st')
      else check_lut_watches idx l ws st)"

text \<open>The second loop over the literals of the seed clause, with its three sources.\<close>

fun check_lut_literals ::
  "(literal \<Rightarrow> nat) \<Rightarrow> 32 word \<Rightarrow> literal list \<Rightarrow> lut_finder \<Rightarrow> error + bool \<times> lut_finder" where
  "check_lut_literals idx filt [] st = Inr (False, st)"
| "check_lut_literals idx filt (l # ls) st =
     (case check_lut_filters filt (m_clause_filters st (var l)) st of
        Inl e \<Rightarrow> Inl e
      | Inr (True, st1) \<Rightarrow> Inr (True, st1)
      | Inr (False, st1) \<Rightarrow>
          (case check_lut_watches idx l (s_wlist st1 l) st1 of
             Inl e \<Rightarrow> Inl e
           | Inr (True, st2) \<Rightarrow> Inr (True, st2)
           | Inr (False, st2) \<Rightarrow>
               (case check_lut_watches idx (neg l) (s_wlist st2 (neg l)) st2 of
                  Inl e \<Rightarrow> Inl e
                | Inr (True, st3) \<Rightarrow> Inr (True, st3)
                | Inr (False, st3) \<Rightarrow> check_lut_literals idx filt ls st3)))"

text \<open>
  \<open>check_lut(c)\<close> for the clause at address \<open>a\<close>.  \<open>m_clause.resize(c.size())\<close> keeps
  the elements it has and pads with \<open>null_literal\<close>.
\<close>

definition check_lut :: "(literal \<Rightarrow> nat) \<Rightarrow> nat \<Rightarrow> lut_finder \<Rightarrow> error + bool \<times> lut_finder" where
  "check_lut idx a st =
     (let c = lits (s_heap st a) in
      if \<not> 2 < length c then Inl (Assertion 57)
      else if \<not> length c \<le> 32 then Inl Undefined
      else let filt = get_clause_filter (s_heap st a);
               (msk, st) = check_lut_seed c 0 0 (st\<lparr>s_visited := {}, m_vars := []\<rparr>);
               st = st\<lparr>m_clauses_to_remove := [a],
                       m_clause := take (length c) (m_clause st)
                                     @ replicate (length c - length (m_clause st)) None,
                       m_combination := 0, m_num_combinations := 0\<rparr>
           in case set_combination msk st of
                None \<Rightarrow> Inl Undefined
              | Some st \<Rightarrow> check_lut_literals idx filt c (mark_used a st))"

section \<open>The pass\<close>

text \<open>\<open>init_clause_filter(clause_vector&)\<close> and its inner loop over the literals.\<close>

fun init_clause_filter_push ::
  "32 word \<times> nat \<Rightarrow> literal list \<Rightarrow> (nat \<Rightarrow> (32 word \<times> nat) list) \<Rightarrow> nat \<Rightarrow> (32 word \<times> nat) list" where
  "init_clause_filter_push cf [] fs = fs"
| "init_clause_filter_push cf (l # ls) fs =
     init_clause_filter_push cf ls (fs(var l := fs (var l) @ [cf]))"

fun init_clause_filter_clauses :: "nat list \<Rightarrow> lut_finder \<Rightarrow> lut_finder" where
  "init_clause_filter_clauses [] st = st"
| "init_clause_filter_clauses (cp # cps) st =
     init_clause_filter_clauses cps
       (let c = s_heap st cp in
        if length (lits c) \<le> m_max_lut_size st \<and> all_distinct c
        then st\<lparr>m_clause_filters :=
                  init_clause_filter_push (get_clause_filter c, cp) (lits c) (m_clause_filters st)\<rparr>
        else st)"

definition init_clause_filter :: "lut_finder \<Rightarrow> lut_finder" where
  "init_clause_filter st =
     init_clause_filter_clauses (s_m_learned st)
       (init_clause_filter_clauses (s_m_clauses st) (st\<lparr>m_clause_filters := (\<lambda>v. [])\<rparr>))"

text \<open>The loop \<open>for (i = 0; i <= 6; ++i) init_mask(i)\<close>.\<close>

function init_masks :: "nat \<Rightarrow> lut_finder \<Rightarrow> lut_finder option" where
  "init_masks i st =
     (if i \<le> 6 then (case init_mask i st of None \<Rightarrow> None | Some st' \<Rightarrow> init_masks (i + 1) st')
      else Some st)"
  by pat_completeness auto
termination
  by (relation "measure (\<lambda>(i, st). 7 - i)") auto

declare init_masks.simps [simp del]

text \<open>The loops that clear and set the \<open>used\<close> flag of every clause of a vector.\<close>

fun unmark_used_all :: "nat list \<Rightarrow> lut_finder \<Rightarrow> lut_finder" where
  "unmark_used_all [] st = st"
| "unmark_used_all (cp # cps) st = unmark_used_all cps (unmark_used cp st)"

fun mark_used_all :: "nat list \<Rightarrow> lut_finder \<Rightarrow> lut_finder" where
  "mark_used_all [] st = st"
| "mark_used_all (cp # cps) st = mark_used_all cps (mark_used cp st)"

text \<open>
  The two nested loops of \<open>operator()\<close>: over the clauses for one \<open>max_size\<close>, and
  \<open>for (; max_size > 2; --max_size)\<close> over the sizes.  The bound 2 of the outer loop is
  the parameter \<open>lo\<close>, so that a run can be cut at a size.
\<close>

fun operator_clauses ::
  "(literal \<Rightarrow> nat) \<Rightarrow> nat \<Rightarrow> nat list \<Rightarrow> lut_finder \<Rightarrow> error + lut_finder" where
  "operator_clauses idx max_size [] st = Inr st"
| "operator_clauses idx max_size (cp # cps) st =
     (let c = s_heap st cp in
      if length (lits c) = max_size \<and> \<not> was_removed c \<and> \<not> is_learned c \<and> \<not> was_used c then
        (case check_lut idx cp st of
           Inl e \<Rightarrow> Inl e
         | Inr (found, st') \<Rightarrow> operator_clauses idx max_size cps st')
      else operator_clauses idx max_size cps st)"

function operator_sizes ::
  "(literal \<Rightarrow> nat) \<Rightarrow> nat \<Rightarrow> nat \<Rightarrow> nat list \<Rightarrow> lut_finder \<Rightarrow> error + lut_finder" where
  "operator_sizes idx lo max_size clauses st =
     (if lo < max_size then
        (case operator_clauses idx max_size clauses st of
           Inl e \<Rightarrow> Inl e
         | Inr st' \<Rightarrow> operator_sizes idx lo (max_size - 1) clauses st')
      else Inr st)"
  by pat_completeness auto
termination
  by (relation "measure (\<lambda>(idx, lo, max_size, clauses, st). max_size)") auto

declare operator_sizes.simps [simp del]

text \<open>
  \<open>operator()(clauses)\<close>: returns the filtered clause vector and the final state.  The
  assertion of line 33 asks for \<open>2^max_size \<le> 64\<close>.  The arrays sized by
  \<open>s.num_vars()\<close> are functions of the variable here, so the resizes leave no trace.
\<close>

definition operator_call ::
  "(literal \<Rightarrow> nat) \<Rightarrow> nat list \<Rightarrow> lut_finder \<Rightarrow> error + nat list \<times> lut_finder" where
  "operator_call idx clauses st =
     (let st = st\<lparr>m_removed_clauses := []\<rparr>; max_size = m_max_lut_size st in
      if \<not> (2::nat) ^ max_size \<le> 64 then Inl (Assertion 33)
      else case init_masks 0 (init_clause_filter st) of
             None \<Rightarrow> Inl Undefined
           | Some st \<Rightarrow>
               (case operator_sizes idx 2 max_size clauses (unmark_used_all clauses st) of
                  Inl e \<Rightarrow> Inl e
                | Inr st \<Rightarrow>
                    let st = st\<lparr>m_clause_filters := (\<lambda>v. [])\<rparr>;
                        st = unmark_used_all clauses st;
                        st = mark_used_all (m_removed_clauses st) st
                    in Inr (filter (\<lambda>cp. \<not> was_used (s_heap st cp)) clauses, st)))"

section \<open>Invariants of the search\<close>

text \<open>
  What no step of the pass changes between two states: the clause-filter index, the
  watch lists, the configured maximum, and the literals and the \<open>removed\<close> and
  \<open>learned\<close> flags of every clause; and a \<open>used\<close> flag that is set stays set.
\<close>

definition frame :: "lut_finder \<Rightarrow> lut_finder \<Rightarrow> bool" where
  "frame st st' \<longleftrightarrow>
     m_clause_filters st' = m_clause_filters st \<and> s_wlist st' = s_wlist st \<and>
     m_max_lut_size st' = m_max_lut_size st \<and>
     (\<forall>a. lits (s_heap st' a) = lits (s_heap st a) \<and>
          was_removed (s_heap st' a) = was_removed (s_heap st a) \<and>
          is_learned (s_heap st' a) = is_learned (s_heap st a) \<and>
          (was_used (s_heap st a) \<longrightarrow> was_used (s_heap st' a)))"

text \<open>
  The clauses a stretch of one attempt may add to \<open>m_clauses_to_remove\<close>: indexed
  clauses, not used before, over visited variables only, with as many literals as the
  candidate has variables.
\<close>

definition removable :: "lut_finder \<Rightarrow> nat \<Rightarrow> bool" where
  "removable st x \<longleftrightarrow>
     \<not> was_used (s_heap st x) \<and> length (lits (s_heap st x)) = length (m_vars st) \<and>
     var ` set (lits (s_heap st x)) \<subseteq> s_visited st \<and>
     (\<exists>v. x \<in> snd ` set (m_clause_filters st v))"

text \<open>
  The effect of a stretch of one attempt, from \<open>st\<close> to \<open>st'\<close>, that reported \<open>b\<close>:
  the clauses \<open>xs\<close> were appended to \<open>m_clauses_to_remove\<close> and marked used, and nothing
  else was; without success the callback log and \<open>m_removed_clauses\<close> are as before,
  with success one callback was made and \<open>m_clauses_to_remove\<close> was appended to
  \<open>m_removed_clauses\<close>.
\<close>

definition attempt :: "lut_finder \<Rightarrow> bool \<Rightarrow> nat list \<Rightarrow> lut_finder \<Rightarrow> bool" where
  "attempt st b xs st' \<longleftrightarrow>
     frame st st' \<and> s_visited st' = s_visited st \<and>
     m_clauses_to_remove st' = m_clauses_to_remove st @ xs \<and>
     (\<forall>x \<in> set xs. removable st x) \<and>
     (\<forall>x. was_used (s_heap st' x) \<longleftrightarrow> was_used (s_heap st x) \<or> x \<in> set xs) \<and>
     (if b then length (on_lut st') = Suc (length (on_lut st)) \<and>
               m_removed_clauses st' = m_removed_clauses st @ m_clauses_to_remove st'
      else m_vars st' = m_vars st \<and> on_lut st' = on_lut st \<and>
           m_removed_clauses st' = m_removed_clauses st)"

text \<open>Every clause of the index has pairwise distinct variables.\<close>

definition index_distinct :: "lut_finder \<Rightarrow> bool" where
  "index_distinct st \<longleftrightarrow>
     (\<forall>v. \<forall>cf \<in> set (m_clause_filters st v). all_distinct (s_heap st (snd cf)))"

text \<open>
  Two invariants of the pass: every clause queued in \<open>m_removed_clauses\<close> is marked
  used; and a clause that is marked used without being queued.
\<close>

definition removed_used :: "lut_finder \<Rightarrow> bool" where
  "removed_used st \<longleftrightarrow> (\<forall>x \<in> set (m_removed_clauses st). was_used (s_heap st x))"

definition kept_used :: "nat \<Rightarrow> lut_finder \<Rightarrow> bool" where
  "kept_used c st \<longleftrightarrow> was_used (s_heap st c) \<and> c \<notin> set (m_removed_clauses st)"

section \<open>Reading the combination word\<close>

text \<open>
  Row \<open>p\<close> of a table over \<open>sz\<close> variables with bit \<open>i\<close> clear is an assignment of the
  other variables with variable \<open>i\<close> false; row \<open>p + 2^i\<close> is the same assignment with
  variable \<open>i\<close> true.  \<open>some_row_witnessed\<close>: for every assignment of the others, one of
  the two rows is set in the combination word.  \<open>both_rows_witnessed\<close>: both are.
\<close>

definition some_row_witnessed :: "lut_finder \<Rightarrow> nat \<Rightarrow> nat \<Rightarrow> bool" where
  "some_row_witnessed st i sz =
     (\<forall>p \<in> {..<2 ^ sz}. \<not> bit p i \<longrightarrow>
        bit (m_combination st) p \<or> bit (m_combination st) (p + 2 ^ i))"

definition both_rows_witnessed :: "lut_finder \<Rightarrow> nat \<Rightarrow> nat \<Rightarrow> bool" where
  "both_rows_witnessed st i sz =
     (\<forall>p \<in> {..<2 ^ sz}. \<not> bit p i \<longrightarrow>
        bit (m_combination st) p \<and> bit (m_combination st) (p + 2 ^ i))"

text \<open>
  The rows obtained from a base row \<open>msk\<close> by assigning the missing positions in every
  way: the rows of the 64-bit word that agree with \<open>msk\<close> at every position (of the at
  most six) that is not missing.
\<close>

definition completion_rows :: "32 word \<Rightarrow> nat list \<Rightarrow> nat set" where
  "completion_rows msk missing =
     {r \<in> {..<64}. \<forall>p \<in> {..<6}. p \<notin> set missing \<longrightarrow> bit r p = bit msk p}"

text \<open>
  The row of a clause in the combination word.  \<open>extract_lut(clause&)\<close> and the seeding
  loop of \<open>check_lut\<close> set bit \<open>j\<close> of the row mask to the sign of the literal placed at
  position \<open>j\<close>.  \<open>sign_row\<close> reads the signs of the literals in their order: the row of
  the seed clause.  \<open>clause_row\<close> reads, for each candidate variable in turn, whether the
  clause holds a negated literal of that variable: the row of a clause over the candidate
  variables.
\<close>

definition sign_row :: "literal list \<Rightarrow> nat" where
  "sign_row ls = horner_sum of_bool 2 (map sign ls)"

definition clause_row :: "nat list \<Rightarrow> literal list \<Rightarrow> nat" where
  "clause_row vars ls = horner_sum of_bool 2 (map (\<lambda>v. \<exists>l \<in> set ls. var l = v \<and> sign l) vars)"

text \<open>
  The position table agrees with the candidate variable list: there are at most 32
  candidate variables, every visited variable has a position below their number, and the
  variable at that position is the variable itself.
\<close>

definition positioned :: "lut_finder \<Rightarrow> bool" where
  "positioned st \<longleftrightarrow>
     length (m_vars st) \<le> 32 \<and>
     (\<forall>v \<in> s_visited st. m_var_position st v < length (m_vars st) \<and>
        m_vars st ! m_var_position st v = v)"

text \<open>
  Between two states of one attempt: the position table is the same, no witnessed row is
  lost, and every clause with pairwise distinct variables that was marked used in between
  has its row witnessed.
\<close>

definition rows_kept :: "lut_finder \<Rightarrow> lut_finder \<Rightarrow> bool" where
  "rows_kept st st' \<longleftrightarrow>
     m_var_position st' = m_var_position st \<and>
     (\<forall>r. bit (m_combination st) r \<longrightarrow> bit (m_combination st') r) \<and>
     (\<forall>x. was_used (s_heap st' x) \<and> \<not> was_used (s_heap st x) \<and> all_distinct (s_heap st x) \<longrightarrow>
          bit (m_combination st') (clause_row (m_vars st) (lits (s_heap st x))))"

section \<open>Example states\<close>

text \<open>
  A finder over an empty solver whose mask table holds the seven masks, and nothing
  else: the starting point of the concrete runs below.
\<close>

definition masks_table :: "nat \<Rightarrow> 64 word" where
  "masks_table i =
     (if i = 0 then 0x5555555555555555 else if i = 1 then 0x3333333333333333
      else if i = 2 then 0x0F0F0F0F0F0F0F0F else if i = 3 then 0x00FF00FF00FF00FF
      else if i = 4 then 0x0000FFFF0000FFFF else if i = 5 then 0x00000000FFFFFFFF
      else 0xFFFFFFFFFFFFFFFF)"

definition example_finder :: lut_finder where
  "example_finder =
     \<lparr>s_num_vars = 0, s_m_clauses = [], s_m_learned = [],
      s_heap = (\<lambda>a. \<lparr>lits = [], was_removed = False, is_learned = False, was_used = False\<rparr>),
      s_wlist = (\<lambda>l. []), s_visited = {}, m_max_lut_size = 6,
      m_combination = 0, m_num_combinations = 0, m_masks = masks_table,
      m_vars = [], m_var_position = (\<lambda>v. 0), m_clause = [], m_missing = [],
      m_clauses_to_remove = [], m_removed_clauses = [], m_clause_filters = (\<lambda>v. []),
      on_lut = []\<rparr>"

text \<open>
  A solver with the clause \<open>\<not>x0 \<or> \<not>x1 \<or> \<not>x2\<close> at address 0, the clause
  \<open>x3 \<or> x4 \<or> x5 \<or> x6\<close> at address 1, and the binary implications \<open>\<not>x2 \<or> x0\<close> and
  \<open>\<not>x2 \<or> x1\<close> in the watch lists (each under the negation of either literal).  The
  index of a literal is taken as twice its variable, plus one when it is negated.
\<close>

definition lit_index :: "literal \<Rightarrow> nat" where
  "lit_index l = 2 * var l + (if sign l then 1 else 0)"

definition example_solver :: lut_finder where
  "example_solver = example_finder
     \<lparr>s_num_vars := 7, s_m_clauses := [0, 1],
      s_heap := (\<lambda>a. if a = 0
                      then \<lparr>lits = [Lit 0 True, Lit 1 True, Lit 2 True], was_removed = False,
                            is_learned = False, was_used = False\<rparr>
                      else \<lparr>lits = [Lit 3 False, Lit 4 False, Lit 5 False, Lit 6 False],
                            was_removed = False, is_learned = False, was_used = False\<rparr>),
      s_wlist := (\<lambda>l. if l = Lit 2 False
                        then [\<lparr>is_binary_clause = True, get_literal = Lit 0 False\<rparr>,
                              \<lparr>is_binary_clause = True, get_literal = Lit 1 False\<rparr>]
                      else if l = Lit 0 True \<or> l = Lit 1 True
                        then [\<lparr>is_binary_clause = True, get_literal = Lit 2 True\<rparr>]
                      else [])\<rparr>"

text \<open>
  A solver with four clauses over \<open>x0\<close>, \<open>x1\<close>, \<open>x2\<close>, each with \<open>\<not>x2\<close>: the four sign
  patterns of \<open>x0\<close> and \<open>x1\<close>, the all-negative one at address 0.
\<close>

definition example_clauses :: lut_finder where
  "example_clauses = example_finder
     \<lparr>s_num_vars := 3, s_m_clauses := [0, 1, 2, 3],
      s_heap := (\<lambda>a. \<lparr>lits = (if a = 0 then [Lit 0 True, Lit 1 True, Lit 2 True]
                                 else if a = 1 then [Lit 0 False, Lit 1 False, Lit 2 True]
                                 else if a = 2 then [Lit 0 True, Lit 1 False, Lit 2 True]
                                 else [Lit 0 False, Lit 1 True, Lit 2 True]),
                         was_removed = False, is_learned = False, was_used = False\<rparr>)\<rparr>"

section \<open>Bit-level facts\<close>

lemma bit_nat_add_exp:
  fixes a :: nat
  assumes "i < j"
  shows "bit (a + 2 ^ j) i = bit a i"
proof -
  have "take_bit (Suc i) (a + 2 ^ j) = take_bit (Suc i) a"
  proof -
    have "Suc i + (j - Suc i) = j"
      using assms by simp
    moreover have "(2::nat) ^ (Suc i + (j - Suc i)) = 2 ^ Suc i * 2 ^ (j - Suc i)"
      by (rule power_add)
    ultimately have "(2::nat) ^ j = 2 ^ Suc i * 2 ^ (j - Suc i)"
      by (simp only:)
    then show ?thesis
      by (simp add: take_bit_eq_mod)
  qed
  then have "bit (take_bit (Suc i) (a + 2 ^ j)) i = bit (take_bit (Suc i) a) i"
    by simp
  then show ?thesis
    by (simp add: bit_take_bit_iff)
qed

lemma bit_nat_small:
  fixes n :: nat
  assumes "n < 2 ^ Suc i"
  shows "bit n i \<longleftrightarrow> 2 ^ i \<le> n"
proof (cases "n < 2 ^ i")
  case True
  then show ?thesis by (simp add: bit_iff_odd)
next
  case False
  then have "2 ^ i \<le> n" by simp
  moreover have "n div 2 ^ i = 1"
  proof -
    have "n div 2 ^ i < 2" using assms by (simp add: less_mult_imp_div_less mult.commute)
    moreover have "0 < n div 2 ^ i" using \<open>2 ^ i \<le> n\<close> by (simp add: div_greater_zero_iff)
    ultimately show ?thesis by simp
  qed
  ultimately show ?thesis by (simp add: bit_iff_odd)
qed

lemma bit_one_shifted_32: "bit (push_bit k 1 :: 32 word) n \<longleftrightarrow> n = k \<and> k < 32"
  by (auto simp add: bit_exp_iff)

lemma bit_one_shifted_64: "bit (push_bit k 1 :: 64 word) n \<longleftrightarrow> n = k \<and> k < 64"
  by (auto simp add: bit_exp_iff)

lemma and_eq_right_iff:
  fixes c m :: "'a::len word"
  shows "c AND m = m \<longleftrightarrow> (\<forall>n. bit m n \<longrightarrow> bit c n)"
  by (auto simp add: bit_eq_iff bit_and_iff dest: bit_imp_le_length)

lemma bit_combination_or_shift:
  fixes w :: "64 word"
  shows "bit (w OR drop_bit k w) n \<longleftrightarrow> bit w n \<or> bit w (n + k)"
  by (simp add: bit_or_iff bit_drop_bit_eq add.commute)

lemma minus_one_64: "(- 1 :: 64 word) = 0xFFFFFFFFFFFFFFFF" by simp

section \<open>The mask table: properties\<close>

lemma init_mask_loop_inv:
  assumes "i < j" and "j \<le> 6"
    and "\<And>n. bit m n \<longleftrightarrow> n < 2 ^ j \<and> \<not> bit n i"
  shows "\<exists>m'. init_mask_loop m (2 ^ j) = Some m' \<and> (\<forall>n. bit m' n \<longleftrightarrow> n < 64 \<and> \<not> bit n i)"
  using assms
proof (induction "6 - j" arbitrary: j m)
  case 0
  then have "j = 6" by simp
  with 0 show ?case by (simp add: init_mask_loop.simps)
next
  case (Suc d)
  then have j: "j < 6" by simp
  then have w: "(2::nat) ^ j < 64"
    using power_strict_increasing [of j 6 "2::nat"] by simp
  have w2: "(2::nat) ^ Suc j \<le> 64"
    using power_increasing [of "Suc j" 6 "2::nat"] j by simp
  let ?m = "m OR push_bit (2 ^ j) m"
  have step: "bit ?m n \<longleftrightarrow> n < 2 ^ Suc j \<and> \<not> bit n i" for n
  proof (cases "n < 2 ^ j")
    case True
    then show ?thesis using Suc.prems(3) by (simp add: bit_or_iff bit_push_bit_iff)
  next
    case False
    then obtain a where a: "n = a + 2 ^ j" by (metis le_add_diff_inverse2 not_less)
    have "bit a i = bit n i" using bit_nat_add_exp [OF Suc.prems(1), of a] a by simp
    then show ?thesis using False a w2 Suc.prems(3) [of n] Suc.prems(3) [of a]
      by (auto simp add: bit_or_iff bit_push_bit_iff)
  qed
  have "\<exists>m'. init_mask_loop ?m (2 ^ Suc j) = Some m' \<and> (\<forall>n. bit m' n \<longleftrightarrow> n < 64 \<and> \<not> bit n i)"
    using Suc.hyps(1) [of "Suc j" ?m] Suc.hyps(2) Suc.prems(1) j step
    by auto
  then show ?case
    using w by (subst init_mask_loop.simps) (simp add: mult.commute)
qed

lemma init_mask_bits:
  assumes "i < 6"
  shows "\<exists>m. init_mask i st = Some (st\<lparr>m_masks := (m_masks st)(i := m)\<rparr>)
           \<and> (\<forall>n. bit m n \<longleftrightarrow> n < 64 \<and> \<not> bit n i)"
proof -
  have i32: "(2::nat) ^ i < 64"
    using power_strict_increasing [of i 6 "2::nat"] assms by simp
  let ?m0 = "push_bit ((2::nat) ^ i) 1 - 1 :: 64 word"
  have m0: "?m0 = mask (2 ^ i)" by (simp add: mask_eq_exp_minus_1)
  have "bit (mask (2 ^ i) :: 64 word) n \<longleftrightarrow> n < 2 ^ i" for n
    using i32 by (auto simp add: bit_mask_iff)
  moreover have "n < 2 ^ i \<longleftrightarrow> n < 2 ^ Suc i \<and> \<not> bit n i" for n :: nat
    using bit_nat_small [of n i] by (cases "n < 2 ^ Suc i") auto
  ultimately have "bit ?m0 n \<longleftrightarrow> n < 2 ^ Suc i \<and> \<not> bit n i" for n
    by (simp only: m0)
  then obtain m' where "init_mask_loop ?m0 (2 ^ Suc i) = Some m'"
    "\<forall>n. bit m' n \<longleftrightarrow> n < 64 \<and> \<not> bit n i"
    using init_mask_loop_inv [of i "Suc i" ?m0] assms by auto
  then show ?thesis using assms by (auto simp add: init_mask_def)
qed

lemma masks_initialised_bits:
  assumes "i < 6" and "init_mask i st = Some st"
  shows "bit (m_masks st i) n \<longleftrightarrow> n < 64 \<and> \<not> bit n i"
proof -
  obtain m where m: "init_mask i st = Some (st\<lparr>m_masks := (m_masks st)(i := m)\<rparr>)"
    "\<And>n. bit m n \<longleftrightarrow> n < 64 \<and> \<not> bit n i"
    using init_mask_bits [OF assms(1), of st] by blast
  with assms(2) have "st\<lparr>m_masks := (m_masks st)(i := m)\<rparr> = st" by simp
  then have "m_masks (st\<lparr>m_masks := (m_masks st)(i := m)\<rparr>) i = m_masks st i" by simp
  then have "m_masks st i = m" by simp
  with m(2) show ?thesis by simp
qed

text \<open>
  C8, as amended: \<open>init_mask\<close> stores, as a 64-bit word, for \<open>i = 0\<close> the alternating
  single bits \<open>...01010101\<close> (lowest bit set), for \<open>i = 1\<close> alternating bit pairs, for
  \<open>i = 3\<close> alternating 8-bit blocks (each starting with a set block at bit 0), and for
  \<open>i = 6\<close> the all-ones word.
\<close>

theorem init_mask_patterns:
  "init_mask 0 st = Some (st\<lparr>m_masks := (m_masks st)(0 := 0x5555555555555555)\<rparr>) \<and>
   init_mask 1 st = Some (st\<lparr>m_masks := (m_masks st)(1 := 0x3333333333333333)\<rparr>) \<and>
   init_mask 3 st = Some (st\<lparr>m_masks := (m_masks st)(3 := 0x00FF00FF00FF00FF)\<rparr>) \<and>
   init_mask 6 st = Some (st\<lparr>m_masks := (m_masks st)(6 := 0xFFFFFFFFFFFFFFFF)\<rparr>)"
proof -
  have "init_mask 6 st = Some (st\<lparr>m_masks := (m_masks st)(6 := 0xFFFFFFFFFFFFFFFF)\<rparr>)"
    by (simp add: init_mask_def) (simp only: minus_one_64)
  then show ?thesis
    by (simp add: init_mask_def init_mask_loop.simps)
qed

text \<open>
  The claim as stated gives \<open>...10101010\<close> for \<open>i = 0\<close>, the word with bit 0 clear;
  \<open>init_mask(0)\<close> does not store it.
\<close>

theorem init_mask_0_counterexample:
  "map_option (\<lambda>st. m_masks st 0) (init_mask 0 example_finder) \<noteq> Some 0xAAAAAAAAAAAAAAAA"
  by (simp add: init_mask_def init_mask_loop.simps)

section \<open>The combination accumulator: properties\<close>

text \<open>
  C2, as amended.  For \<open>sz \<le> 6\<close>, \<open>i < sz\<close> and an initialised mask \<open>i\<close>:
  \<open>lut_is_defined(i, sz)\<close> tests whether OR-ing the word with itself shifted right by
  \<open>2^i\<close> sets every bit of the mask (cut to its low \<open>sz\<close> bits when \<open>sz < 6\<close>); at
  \<open>sz = 6\<close> it returns true exactly when, for every assignment of the other variables,
  at least one of the two rows (variable \<open>i\<close> false, variable \<open>i\<close> true) is witnessed;
  and for every \<open>sz\<close> that condition is sufficient for the answer true.
\<close>

theorem lut_is_defined_var_meaning:
  assumes "sz \<le> 6" and "i < sz" and "init_mask i st = Some st"
  shows "lut_is_defined_var i sz st =
           Some (let w = m_combination st;
                     m = (if sz < 6 then take_bit sz (m_masks st i) else m_masks st i)
                 in (w OR drop_bit ((2::nat) ^ i) w) AND m = m)
         \<and> (sz = 6 \<longrightarrow> lut_is_defined_var i sz st = Some (some_row_witnessed st i sz))
         \<and> (some_row_witnessed st i sz \<longrightarrow> lut_is_defined_var i sz st = Some True)"
proof -
  have i: "i < 6" using assms by simp
  note mb = masks_initialised_bits [OF i assms(3)]
  have trunc: "m AND (push_bit sz 1 - 1) = take_bit sz m" for m :: "64 word"
    by (simp add: take_bit_eq_mask mask_eq_exp_minus_1)
  have mech: "lut_is_defined_var i sz st =
           Some (let w = m_combination st;
                     m = (if sz < 6 then take_bit sz (m_masks st i) else m_masks st i)
                 in (w OR drop_bit ((2::nat) ^ i) w) AND m = m)"
    using i by (simp add: lut_is_defined_var_def Let_def trunc del: push_bit_of_1)
  have full: "lut_is_defined_var i sz st = Some (some_row_witnessed st i sz)" if "sz = 6"
  proof -
    have "some_row_witnessed st i 6 \<longleftrightarrow>
            (\<forall>n. n < 64 \<and> \<not> bit n i \<longrightarrow>
               bit (m_combination st) n \<or> bit (m_combination st) (n + 2 ^ i))"
      by (auto simp add: some_row_witnessed_def)
    then show ?thesis
      using that mech by (simp add: and_eq_right_iff bit_combination_or_shift mb Let_def)
  qed
  have suff: "lut_is_defined_var i sz st = Some True" if h: "some_row_witnessed st i sz"
  proof (cases "sz < 6")
    case False
    then have "sz = 6" using assms(1) by simp
    with full h show ?thesis by simp
  next
    case True
    have "bit (m_combination st) n \<or> bit (m_combination st) (n + 2 ^ i)"
      if "n < sz" "\<not> bit n i" for n
    proof -
      have "n < 2 ^ sz" using that(1) by (meson less_exp less_trans)
      then show ?thesis using h that(2) by (simp add: some_row_witnessed_def)
    qed
    then show ?thesis
      using True
      by (auto simp add: mech and_eq_right_iff bit_combination_or_shift mb bit_take_bit_iff)
  qed
  from mech full suff show ?thesis by blast
qed

theorem lut_is_defined_var_meaning_witness:
  "(6::nat) \<le> 6 \<and> (0::nat) < 6
   \<and> init_mask 0 (example_finder\<lparr>m_combination := 0x5555555555555555\<rparr>)
       = Some (example_finder\<lparr>m_combination := 0x5555555555555555\<rparr>)
   \<and> lut_is_defined_var 0 6 (example_finder\<lparr>m_combination := 0x5555555555555555\<rparr>)
       = Some (some_row_witnessed (example_finder\<lparr>m_combination := 0x5555555555555555\<rparr>) 0 6)"
proof -
  let ?st = "example_finder\<lparr>m_combination := 0x5555555555555555\<rparr>"
  have a: "(6::nat) \<le> 6" "(0::nat) < 6" by simp_all
  have b: "init_mask 0 ?st = Some ?st"
    by (simp add: init_mask_def init_mask_loop.simps example_finder_def masks_table_def
        fun_upd_idem_iff)
  from lut_is_defined_var_meaning [OF a b]
  have "lut_is_defined_var 0 6 ?st = Some (some_row_witnessed ?st 0 6)"
    by blast
  with a b show ?thesis by blast
qed

text \<open>
  The claim as stated asks for both rows: with every even row witnessed and no odd one,
  \<open>lut_is_defined(0, 6)\<close> is true although no row with variable 0 true is witnessed.
\<close>

theorem lut_is_defined_var_not_both_counterexample:
  "lut_is_defined_var 0 6 (example_finder\<lparr>m_combination := 0x5555555555555555\<rparr>) = Some True
   \<and> \<not> both_rows_witnessed (example_finder\<lparr>m_combination := 0x5555555555555555\<rparr>) 0 6"
proof
  show "lut_is_defined_var 0 6 (example_finder\<lparr>m_combination := 0x5555555555555555\<rparr>) = Some True"
    by (simp add: lut_is_defined_var_def example_finder_def masks_table_def)
  have "\<not> bit (0x5555555555555555 :: 64 word) (0 + 2 ^ 0)" by simp
  then have "\<exists>p \<in> {..<(2::nat) ^ 6}. \<not> bit p (0::nat) \<and> \<not> bit (0x5555555555555555 :: 64 word) (p + 2 ^ 0)"
    by (intro bexI [of _ 0]) simp_all
  then show "\<not> both_rows_witnessed (example_finder\<lparr>m_combination := 0x5555555555555555\<rparr>) 0 6"
    by (auto simp add: both_rows_witnessed_def example_finder_def)
qed

text \<open>
  C9: for every size (in the range where the shift is defined) and every accumulator
  state, \<open>lut_is_defined(sz)\<close> returns false whenever the witnessed-row count is below
  \<open>2^(sz/2)\<close>, whatever the combination word holds.
\<close>

theorem lut_is_defined_density:
  assumes "sz div 2 < 64" and "m_num_combinations st < 2 ^ (sz div 2)"
  shows "lut_is_defined sz st = Some False"
  using assms by (simp add: lut_is_defined_def)

theorem lut_is_defined_density_witness:
  "(3::nat) div 2 < 64 \<and> m_num_combinations (example_finder\<lparr>m_num_combinations := 1\<rparr>) < 2 ^ (3 div 2)
   \<and> lut_is_defined 3 (example_finder\<lparr>m_num_combinations := 1\<rparr>) = Some False"
proof -
  have a: "(3::nat) div 2 < 64" by simp
  have b: "m_num_combinations (example_finder\<lparr>m_num_combinations := 1\<rparr>) < 2 ^ (3 div 2)" by simp
  from lut_is_defined_density [OF a b] a b show ?thesis by blast
qed

lemma bit_nat_less_exp:
  fixes x :: nat
  assumes "x < 2 ^ m" and "bit x q"
  shows "q < m"
proof -
  have "take_bit m x = x" using assms(1) by (simp add: take_bit_nat_eq_self_iff)
  then have "bit (take_bit m x) q" using assms(2) by simp
  then show ?thesis by (simp add: bit_take_bit_iff)
qed

lemma bit_update_combinations_inner:
  "bit (update_combinations_inner missing k i mask2) q \<longleftrightarrow>
     bit mask2 q \<or> (\<exists>j. i \<le> j \<and> j < length missing \<and> bit k j \<and> missing ! j = q \<and> q < 32)"
proof (induction missing k i mask2 rule: update_combinations_inner.induct)
  case (1 missing k i mask2)
  show ?case
  proof (cases "i < length missing")
    case False
    then show ?thesis
      by (auto simp add: update_combinations_inner.simps [of missing k i])
  next
    case True
    let ?m2 = "if bit k i then mask2 OR push_bit (missing ! i) 1 else mask2"
    let ?P = "\<lambda>j. j < length missing \<and> bit k j \<and> missing ! j = q \<and> q < 32"
    have unfold: "update_combinations_inner missing k i mask2
                    = update_combinations_inner missing k (i + 1) ?m2"
      using True by (simp add: update_combinations_inner.simps [of missing k i])
    have head: "bit ?m2 q \<longleftrightarrow> bit mask2 q \<or> ?P i"
      using True by (auto simp add: bit_or_iff bit_one_shifted_32 simp del: push_bit_of_1)
    have tail: "(\<exists>j. i \<le> j \<and> ?P j) \<longleftrightarrow> ?P i \<or> (\<exists>j. i + 1 \<le> j \<and> ?P j)"
    proof
      assume "\<exists>j. i \<le> j \<and> ?P j"
      then obtain j where j: "i \<le> j" "?P j" by blast
      show "?P i \<or> (\<exists>j. i + 1 \<le> j \<and> ?P j)"
      proof (cases "j = i")
        case True
        with j show ?thesis by blast
      next
        case False
        with j have "i + 1 \<le> j" by simp
        with j show ?thesis by blast
      qed
    next
      assume "?P i \<or> (\<exists>j. i + 1 \<le> j \<and> ?P j)"
      then show "\<exists>j. i \<le> j \<and> ?P j"
      proof
        assume "?P i"
        then show ?thesis by (intro exI [of _ i]) simp
      next
        assume "\<exists>j. i + 1 \<le> j \<and> ?P j"
        then obtain j where "i + 1 \<le> j" "?P j" by blast
        then show ?thesis by (intro exI [of _ j]) simp
      qed
    qed
    have "bit (update_combinations_inner missing k (i + 1) ?m2) q
            \<longleftrightarrow> bit ?m2 q \<or> (\<exists>j. i + 1 \<le> j \<and> ?P j)"
      using 1 [OF True] by simp
    then show ?thesis
      unfolding unfold head tail by blast
  qed
qed

lemma unat_small_bits:
  fixes x :: "32 word"
  assumes "\<And>q. bit x q \<Longrightarrow> q < 6"
  shows "unat x < 64"
proof -
  have "take_bit 6 x = x"
    by (rule bit_word_eqI) (auto simp add: bit_take_bit_iff dest: assms)
  then have "unat x = unat (take_bit 6 x)" by simp
  also have "\<dots> = take_bit 6 (unat x)" by (simp add: unsigned_take_bit_eq)
  also have "\<dots> < 2 ^ 6" by (rule take_bit_nat_less_exp)
  finally show ?thesis by simp
qed

lemma bits_small_unat:
  fixes x :: "32 word"
  assumes "unat x < 64" and "bit x q"
  shows "q < 6"
proof -
  have "bit (unat x) q" using assms(2) by (simp add: bit_unsigned_iff bit_imp_le_length)
  then show ?thesis using bit_nat_less_exp [of "unat x" 6 q] assms(1) by simp
qed

lemma set_combination_Some:
  assumes "unat x < 64"
  shows "\<exists>c n. set_combination x st = Some (st\<lparr>m_combination := c, m_num_combinations := n\<rparr>)
           \<and> (\<forall>r. bit c r \<longleftrightarrow> bit (m_combination st) r \<or> r = unat x)
           \<and> n = m_num_combinations st + (if bit (m_combination st) (unat x) then 0 else 1)"
proof (cases "bit (m_combination st) (unat x)")
  case True
  have "set_combination x st
          = Some (st\<lparr>m_combination := m_combination st, m_num_combinations := m_num_combinations st\<rparr>)"
    using True assms by (simp add: set_combination_def get_combination_def)
  moreover have "\<forall>r. bit (m_combination st) r \<longleftrightarrow> bit (m_combination st) r \<or> r = unat x"
    using True by auto
  ultimately show ?thesis using True by (intro exI conjI) (assumption | simp)+
next
  case False
  let ?c = "m_combination st OR push_bit (unat x) 1"
  have "set_combination x st
          = Some (st\<lparr>m_combination := ?c, m_num_combinations := m_num_combinations st + 1\<rparr>)"
    using False assms by (simp add: set_combination_def get_combination_def)
  moreover have "\<forall>r. bit ?c r \<longleftrightarrow> bit (m_combination st) r \<or> r = unat x"
    using assms by (auto simp add: bit_or_iff bit_one_shifted_64 simp del: push_bit_of_1)
  ultimately show ?thesis using False by (intro exI conjI) (assumption | simp)+
qed

lemma update_combinations_loop_rows:
  assumes "\<And>k. k < 2 ^ length missing \<Longrightarrow> unat (update_combinations_inner missing k 0 msk) < 64"
  shows "\<exists>c n. update_combinations_loop missing msk k0 st
                 = Some (st\<lparr>m_combination := c, m_num_combinations := n\<rparr>)
           \<and> (\<forall>r. bit c r \<longleftrightarrow> bit (m_combination st) r
                  \<or> r \<in> (\<lambda>k. unat (update_combinations_inner missing k 0 msk)) ` {k0..<2 ^ length missing})
           \<and> n = m_num_combinations st
                 + card {r \<in> (\<lambda>k. unat (update_combinations_inner missing k 0 msk)) ` {k0..<2 ^ length missing}.
                         \<not> bit (m_combination st) r}"
proof (induction "2 ^ length missing - k0" arbitrary: k0 st)
  case 0
  then have "\<not> k0 < 2 ^ length missing" by simp
  then have "update_combinations_loop missing msk k0 st
               = Some (st\<lparr>m_combination := m_combination st, m_num_combinations := m_num_combinations st\<rparr>)"
    "{k0..<2 ^ length missing} = {}"
    by (simp_all add: update_combinations_loop.simps [of missing msk k0])
  then show ?case by (intro exI conjI) (assumption | simp)+
next
  case (Suc d)
  let ?row = "\<lambda>k. unat (update_combinations_inner missing k 0 msk)"
  let ?N = "2 ^ length missing :: nat"
  from Suc.hyps(2) have k0: "k0 < ?N" by simp
  obtain c1 n1 where st1: "set_combination (update_combinations_inner missing k0 0 msk) st
        = Some (st\<lparr>m_combination := c1, m_num_combinations := n1\<rparr>)"
    and c1: "\<And>r. bit c1 r \<longleftrightarrow> bit (m_combination st) r \<or> r = ?row k0"
    and n1: "n1 = m_num_combinations st + (if bit (m_combination st) (?row k0) then 0 else 1)"
    using set_combination_Some [OF assms [OF k0], of st] by blast
  let ?st1 = "st\<lparr>m_combination := c1, m_num_combinations := n1\<rparr>"
  have d: "d = ?N - (k0 + 1)" using Suc.hyps(2) by simp
  obtain c n where loop: "update_combinations_loop missing msk (k0 + 1) ?st1
        = Some (?st1\<lparr>m_combination := c, m_num_combinations := n\<rparr>)"
    and c: "\<And>r. bit c r \<longleftrightarrow> bit (m_combination ?st1) r \<or> r \<in> ?row ` {k0 + 1..<?N}"
    and n: "n = m_num_combinations ?st1
                 + card {r \<in> ?row ` {k0 + 1..<?N}. \<not> bit (m_combination ?st1) r}"
    using Suc.hyps(1) [OF d, of ?st1] by blast
  have interval: "{k0..<?N} = insert k0 {k0 + 1..<?N}" using k0 by auto
  have "update_combinations_loop missing msk k0 st = Some (st\<lparr>m_combination := c, m_num_combinations := n\<rparr>)"
    using k0 st1 loop by (simp add: update_combinations_loop.simps [of missing msk k0])
  moreover have "\<forall>r. bit c r \<longleftrightarrow> bit (m_combination st) r \<or> r \<in> ?row ` {k0..<?N}"
    using c c1 by (auto simp add: interval)
  moreover have "n = m_num_combinations st + card {r \<in> ?row ` {k0..<?N}. \<not> bit (m_combination st) r}"
  proof -
    let ?A = "{r \<in> ?row ` {k0 + 1..<?N}. \<not> bit c1 r}"
    have fin: "finite ?A" by simp
    have A: "?A = {r \<in> ?row ` {k0 + 1..<?N}. \<not> bit (m_combination st) r} - {?row k0}"
      using c1 by auto
    show ?thesis
    proof (cases "bit (m_combination st) (?row k0)")
      case True
      then have "{r \<in> ?row ` {k0..<?N}. \<not> bit (m_combination st) r} = ?A"
        using c1 by (auto simp add: interval)
      then show ?thesis using n n1 True by simp
    next
      case False
      then have "{r \<in> ?row ` {k0..<?N}. \<not> bit (m_combination st) r} = insert (?row k0) ?A"
        using c1 by (auto simp add: interval)
      moreover have "?row k0 \<notin> ?A" using c1 by simp
      ultimately have "card {r \<in> ?row ` {k0..<?N}. \<not> bit (m_combination st) r} = Suc (card ?A)"
        using fin by simp
      then show ?thesis using n n1 False by simp
    qed
  qed
  ultimately show ?case by blast
qed

lemma lut_is_defined_scan_total:
  assumes "sz \<le> 6"
  shows "\<exists>b. lut_is_defined_scan i sz st = Some b"
proof (induction "sz - i" arbitrary: i)
  case 0
  then show ?case by (auto simp add: lut_is_defined_scan.simps [of i sz])
next
  case (Suc d)
  then have i: "i < sz" "d = sz - (i + 1)" by simp_all
  then have "i < 6" using assms by simp
  then obtain b where b: "lut_is_defined_var i sz st = Some b"
    by (simp add: lut_is_defined_var_def Let_def)
  from Suc.hyps(1) [OF i(2)] obtain b' where "lut_is_defined_scan (i + 1) sz st = Some b'" by blast
  with b i(1) show ?case
    by (cases b) (auto simp add: lut_is_defined_scan.simps [of i sz])
qed

lemma lut_is_defined_total:
  assumes "sz \<le> 6"
  shows "\<exists>b. lut_is_defined sz st = Some b"
  using assms lut_is_defined_scan_total [OF assms, of 0 st]
  by (auto simp add: lut_is_defined_def)

lemma completion_rows_image:
  assumes msk: "unat msk < 64" and dist: "distinct missing"
    and miss: "\<forall>p \<in> set missing. p < 6 \<and> \<not> bit msk p"
  shows "(\<forall>k. unat (update_combinations_inner missing k 0 msk) < 64)
       \<and> (\<lambda>k. unat (update_combinations_inner missing k 0 msk)) ` {0..<2 ^ length missing}
           = completion_rows msk missing
       \<and> card (completion_rows msk missing) = 2 ^ length missing"
proof -
  let ?m = "length missing"
  let ?row = "\<lambda>k. unat (update_combinations_inner missing k 0 msk)"
  have L1: "bit (update_combinations_inner missing k 0 msk) q \<longleftrightarrow>
              bit msk q \<or> (\<exists>j<?m. bit k j \<and> missing ! j = q)" for k q
  proof -
    have "missing ! j < 32" if "j < ?m" for j
      using miss that nth_mem [of j missing] by fastforce
    then show ?thesis
      by (auto simp add: bit_update_combinations_inner)
  qed
  have L2: "q < 6" if "bit (update_combinations_inner missing k 0 msk) q" for k q
    using that miss bits_small_unat [OF msk, of q] nth_mem [of _ missing]
    by (auto simp add: L1)
  have small: "?row k < 64" for k
    by (rule unat_small_bits) (rule L2)
  have L3: "bit (?row k) q \<longleftrightarrow> bit (update_combinations_inner missing k 0 msk) q" for k q
    by (simp add: bit_unsigned_iff)
  have at_missing: "bit (?row k) (missing ! j) \<longleftrightarrow> bit k j" if "j < ?m" for k j
  proof -
    have "\<not> bit msk (missing ! j)" using miss that by simp
    moreover have "j' = j" if "j' < ?m" "missing ! j' = missing ! j" for j'
      using that \<open>j < ?m\<close> dist by (simp add: nth_eq_iff_index_eq)
    ultimately show ?thesis using that by (auto simp add: L3 L1)
  qed
  have off_missing: "bit (?row k) q \<longleftrightarrow> bit msk q" if "q \<notin> set missing" for k q
    using that by (auto simp add: L3 L1)
  have sub: "?row k \<in> completion_rows msk missing" for k
    using small [of k] off_missing [of _ k] by (simp add: completion_rows_def)
  have sup: "r \<in> ?row ` {0..<2 ^ ?m}" if r: "r \<in> completion_rows msk missing" for r
  proof -
    let ?k = "horner_sum of_bool 2 (map (bit r) missing) :: nat"
    have k: "?k < 2 ^ ?m"
      using horner_sum_of_bool_2_less [of "map (bit r) missing"] by simp
    have kb: "bit ?k j \<longleftrightarrow> j < ?m \<and> bit r (missing ! j)" for j
      by (auto simp add: bit_horner_sum_bit_iff)
    from r have r64: "r < 64"
      and agree: "\<And>p. p < 6 \<Longrightarrow> p \<notin> set missing \<Longrightarrow> bit r p = bit msk p"
      by (simp_all add: completion_rows_def)
    have "bit (?row ?k) q = bit r q" for q
    proof (cases "q \<in> set missing")
      case True
      then obtain j where "j < ?m" "missing ! j = q" by (auto simp add: in_set_conv_nth)
      then show ?thesis using at_missing [of j ?k] kb [of j] by simp
    next
      case False
      show ?thesis
      proof (cases "q < 6")
        case True
        then show ?thesis using agree [OF True False] off_missing [OF False] by simp
      next
        case q: False
        have "\<not> bit r q" using bit_nat_less_exp [of r 6 q] r64 q by auto
        moreover have "\<not> bit (?row ?k) q" using L2 [of ?k q] q by (auto simp add: L3)
        ultimately show ?thesis by simp
      qed
    qed
    then have "?row ?k = r" by (simp add: bit_eq_iff)
    with k show ?thesis by (intro image_eqI [of _ _ ?k]) simp_all
  qed
  have img: "?row ` {0..<2 ^ ?m} = completion_rows msk missing"
    using sub sup by blast
  have inj: "inj_on ?row {0..<2 ^ ?m}"
  proof (rule inj_onI)
    fix k1 k2 assume k: "k1 \<in> {0..<2 ^ ?m}" "k2 \<in> {0..<2 ^ ?m}" and eq: "?row k1 = ?row k2"
    have "bit k1 j = bit k2 j" for j
    proof (cases "j < ?m")
      case True
      then show ?thesis using at_missing [OF True, of k1] at_missing [OF True, of k2] eq by simp
    next
      case False
      then show ?thesis
        using bit_nat_less_exp [of k1 ?m j] bit_nat_less_exp [of k2 ?m j] k by auto
    qed
    then show "k1 = k2" by (simp add: bit_eq_iff)
  qed
  have "card (completion_rows msk missing) = card {0..<(2::nat) ^ ?m}"
    using card_image [OF inj] img by simp
  then have "card (completion_rows msk missing) = 2 ^ ?m" by simp
  with small img show ?thesis by blast
qed

text \<open>
  C6: for a base row \<open>mask\<close> below 64 and \<open>m\<close> distinct missing positions below 6 at
  which the mask is clear, \<open>update_combinations\<close> returns, the
  rows obtained by assigning the missing positions in every way are \<open>2^m\<close> in number, the
  combination word afterwards has exactly these rows added and every other row as before,
  and the witnessed-row count grows by the number of those rows that were not set before.
\<close>

theorem update_combinations_rows:
  assumes "unat msk < 64" and "distinct (m_missing st)"
    and "\<forall>p \<in> set (m_missing st). p < 6 \<and> \<not> bit msk p"
    and "length (m_vars st) \<le> 6"
  shows "\<exists>b st'. update_combinations msk st = Some (b, st')
           \<and> card (completion_rows msk (m_missing st)) = 2 ^ length (m_missing st)
           \<and> (\<forall>r. bit (m_combination st') r \<longleftrightarrow>
                    bit (m_combination st) r \<or> r \<in> completion_rows msk (m_missing st))
           \<and> m_num_combinations st' = m_num_combinations st
               + card {r \<in> completion_rows msk (m_missing st). \<not> bit (m_combination st) r}"
proof -
  let ?missing = "m_missing st"
  note rows = completion_rows_image [OF assms(1,2,3)]
  from rows have small: "\<And>k. k < 2 ^ length ?missing \<Longrightarrow>
      unat (update_combinations_inner ?missing k 0 msk) < 64" by blast
  from rows have img: "(\<lambda>k. unat (update_combinations_inner ?missing k 0 msk)) ` {0..<2 ^ length ?missing}
      = completion_rows msk ?missing" by blast
  obtain c n where loop: "update_combinations_loop ?missing msk 0 st
        = Some (st\<lparr>m_combination := c, m_num_combinations := n\<rparr>)"
    and c: "\<forall>r. bit c r \<longleftrightarrow> bit (m_combination st) r \<or> r \<in> completion_rows msk ?missing"
    and n: "n = m_num_combinations st
              + card {r \<in> completion_rows msk ?missing. \<not> bit (m_combination st) r}"
    using update_combinations_loop_rows [of ?missing msk 0 st, OF small] unfolding img by blast
  let ?st' = "st\<lparr>m_combination := c, m_num_combinations := n\<rparr>"
  obtain b where b: "lut_is_defined (length (m_vars ?st')) ?st' = Some b"
    using lut_is_defined_total [of "length (m_vars ?st')" ?st'] assms(4) by auto
  have guard: "length ?missing < 32 \<and> (\<forall>p \<in> set ?missing. p < 64)"
  proof -
    have "set ?missing \<subseteq> {..<6}" using assms(3) by auto
    then have "card (set ?missing) \<le> card {..<(6::nat)}" by (intro card_mono) simp_all
    then have "length ?missing \<le> 6" using assms(2) by (simp add: distinct_card)
    then show ?thesis using assms(3) by fastforce
  qed
  have "update_combinations msk st = Some (b, ?st')"
    using guard loop b by (simp add: update_combinations_def)
  with rows c n show ?thesis by (intro exI [of _ b] exI [of _ ?st']) simp
qed

theorem update_combinations_rows_witness:
  "unat (3 :: 32 word) < 64 \<and> distinct (m_missing (example_finder\<lparr>m_vars := [0, 1, 2], m_missing := [2]\<rparr>))
   \<and> m_missing (example_finder\<lparr>m_vars := [0, 1, 2], m_missing := [2]\<rparr>) = [2]
   \<and> (2 :: nat) < 6 \<and> \<not> bit (3 :: 32 word) 2
   \<and> length (m_vars (example_finder\<lparr>m_vars := [0, 1, 2], m_missing := [2]\<rparr>)) \<le> 6
   \<and> (\<exists>b st'. update_combinations 3 (example_finder\<lparr>m_vars := [0, 1, 2], m_missing := [2]\<rparr>) = Some (b, st')
        \<and> card (completion_rows 3 [2]) = 2 ^ length [2::nat]
        \<and> (\<forall>r. bit (m_combination st') r \<longleftrightarrow> r \<in> completion_rows 3 [2])
        \<and> m_num_combinations st' = card (completion_rows 3 [2]))"
proof -
  let ?st = "example_finder\<lparr>m_vars := [0, 1, 2], m_missing := [2]\<rparr>"
  have a: "unat (3 :: 32 word) < 64" by simp
  have b: "distinct (m_missing ?st)" by simp
  have c: "\<forall>p \<in> set (m_missing ?st). p < 6 \<and> \<not> bit (3 :: 32 word) p"
    by (simp add: bit_numeral_simps)
  have d: "length (m_vars ?st) \<le> 6" by simp
  have e: "m_combination ?st = 0" "m_num_combinations ?st = 0" "m_missing ?st = [2]"
    by (simp_all add: example_finder_def)
  have f: "(2 :: nat) < 6 \<and> \<not> bit (3 :: 32 word) 2"
    by (simp add: bit_numeral_simps)
  from update_combinations_rows [OF a b c d] a b d f show ?thesis
    unfolding e by simp
qed

text \<open>
  Both callers of \<open>update_combinations\<close> pass, for a candidate of at most six variables,
  a mask below 64 and distinct missing positions below 6 at which the mask is clear.
\<close>

lemma extract_lut_scan_inputs_gen:
  assumes "extract_lut_scan mc j msk missing = (msk', missing')"
    and "distinct missing" and "\<forall>p \<in> set missing. p < j \<and> \<not> bit msk p"
    and "\<forall>q. bit msk q \<longrightarrow> q < j" and "j + length mc \<le> 32"
  shows "distinct missing' \<and> (\<forall>p \<in> set missing'. p < j + length mc \<and> \<not> bit msk' p)
       \<and> (\<forall>q. bit msk' q \<longrightarrow> q < j + length mc)"
  using assms
proof (induction mc j msk missing rule: extract_lut_scan.induct)
  case (1 j msk missing)
  then show ?case by simp
next
  case (2 mc j msk missing)
  have "distinct (missing @ [j])" using 2(3,4) by auto
  moreover have "\<forall>p \<in> set (missing @ [j]). p < j + 1 \<and> \<not> bit msk p"
    using 2(4,5) by (auto simp add: less_Suc_eq)
  moreover have "\<forall>q. bit msk q \<longrightarrow> q < j + 1" using 2(5) by (auto simp add: less_Suc_eq)
  ultimately show ?case using 2(1) [of ] 2(2,6) by simp
next
  case (3 lit mc j msk missing)
  let ?m = "msk OR push_bit j (of_bool (sign lit))"
  have b: "bit ?m q \<longleftrightarrow> bit msk q \<or> (q = j \<and> sign lit)" for q
    using 3(6) by (cases "sign lit") (auto simp add: bit_or_iff bit_one_shifted_32 simp del: push_bit_of_1)
  have "\<forall>p \<in> set missing. p < j + 1 \<and> \<not> bit ?m p"
    using 3(4) by (auto simp add: b)
  moreover have "\<forall>q. bit ?m q \<longrightarrow> q < j + 1" using 3(5) by (auto simp add: b less_Suc_eq)
  ultimately show ?case using 3(1) [of ] 3(2,3,6) by simp
qed

lemma extract_lut_binary_loop_inputs_gen:
  assumes "extract_lut_binary_loop l1 l2 vs i msk missing = (msk', missing')"
    and "distinct missing" and "\<forall>p \<in> set missing. p < i \<and> \<not> bit msk p"
    and "\<forall>q. bit msk q \<longrightarrow> q < i" and "i + length vs \<le> 32"
  shows "distinct missing' \<and> (\<forall>p \<in> set missing'. p < i + length vs \<and> \<not> bit msk' p)
       \<and> (\<forall>q. bit msk' q \<longrightarrow> q < i + length vs)"
  using assms
proof (induction vs arbitrary: i msk missing)
  case Nil
  then show ?case by simp
next
  case (Cons v vs)
  have step: ?case
    if run: "extract_lut_binary_loop l1 l2 vs (i + 1) m ms = (msk', missing')"
      and d: "distinct ms" and c: "\<forall>p \<in> set ms. p < i + 1 \<and> \<not> bit m p"
      and u: "\<forall>q. bit m q \<longrightarrow> q < i + 1" for m ms
    using Cons.IH [OF run d c u] Cons.prems(5) by simp
  have setbit: "bit (msk OR push_bit i (of_bool s)) q \<longleftrightarrow> bit msk q \<or> (q = i \<and> s)" for s q
    using Cons.prems(5) by (cases s) (auto simp add: bit_or_iff bit_one_shifted_32 simp del: push_bit_of_1)
  show ?case
  proof (cases "v = var l1")
    case True
    with Cons.prems(1) have "extract_lut_binary_loop l1 l2 vs (i + 1)
        (msk OR push_bit i (of_bool (sign l1))) missing = (msk', missing')" by simp
    then show ?thesis
      using Cons.prems(2,3,4)
      by (intro step [of "msk OR push_bit i (of_bool (sign l1))" missing])
        (auto simp add: setbit less_Suc_eq)
  next
    case n1: False
    show ?thesis
    proof (cases "v = var l2")
      case True
      with n1 Cons.prems(1) have "extract_lut_binary_loop l1 l2 vs (i + 1)
          (msk OR push_bit i (of_bool (sign l2))) missing = (msk', missing')" by simp
      then show ?thesis
        using Cons.prems(2,3,4)
        by (intro step [of "msk OR push_bit i (of_bool (sign l2))" missing])
          (auto simp add: setbit less_Suc_eq)
    next
      case False
      with n1 Cons.prems(1) have "extract_lut_binary_loop l1 l2 vs (i + 1) msk (missing @ [i])
          = (msk', missing')" by simp
      then show ?thesis
        using Cons.prems(2,3,4)
        by (intro step [of msk "missing @ [i]"]) (auto simp add: less_Suc_eq)
    qed
  qed
qed

lemma extract_lut_scan_inputs:
  assumes "extract_lut_scan mc 0 0 [] = (msk, missing)" and "length mc \<le> 6"
  shows "unat msk < 64 \<and> distinct missing \<and> (\<forall>p \<in> set missing. p < 6 \<and> \<not> bit msk p)"
proof -
  from extract_lut_scan_inputs_gen [OF assms(1)] assms(2)
  have "distinct missing" "\<forall>p \<in> set missing. p < length mc \<and> \<not> bit msk p"
    "\<forall>q. bit msk q \<longrightarrow> q < length mc"
    by simp_all
  with assms(2) unat_small_bits [of msk] show ?thesis by fastforce
qed

lemma extract_lut_binary_loop_inputs:
  assumes "extract_lut_binary_loop l1 l2 vs 0 0 [] = (msk, missing)" and "length vs \<le> 6"
  shows "unat msk < 64 \<and> distinct missing \<and> (\<forall>p \<in> set missing. p < 6 \<and> \<not> bit msk p)"
proof -
  from extract_lut_binary_loop_inputs_gen [OF assms(1)] assms(2)
  have "distinct missing" "\<forall>p \<in> set missing. p < length vs \<and> \<not> bit msk p"
    "\<forall>q. bit msk q \<longrightarrow> q < length vs"
    by simp_all
  with assms(2) unat_small_bits [of msk] show ?thesis by fastforce
qed

section \<open>Truth-table extraction: properties\<close>

lemma convert_combination_fold_bit:
  assumes "n \<le> 5"
  shows "bit (convert_combination_fold n j0 r st) j \<longleftrightarrow>
           (bit r j \<or> (j0 \<le> j \<and> j < 2 ^ n \<and> \<not> bit (m_combination st) (2 * j)))"
  using assms
proof (induction n j0 r st rule: convert_combination_fold.induct)
  case (1 n j0 r st)
  have b: "(2::nat) ^ n \<le> 32"
    using power_increasing [of n 5 "2::nat"] 1(2) by simp
  show ?case
  proof (cases "j0 < 2 ^ n")
    case True
    then have "j0 < 64" using b by simp
    then show ?thesis
      using True 1(1) [OF True 1(2)]
      by (simp add: convert_combination_fold.simps [of n j0] bit_or_iff bit_one_shifted_64 del: push_bit_of_1)
        (auto simp add: not_less_eq_eq)
  next
    case False
    then show ?thesis
      by (auto simp add: convert_combination_fold.simps [of n j0])
  qed
qed

lemma lut_is_defined_scan_find:
  assumes "lut_is_defined_scan i sz st = Some True"
  shows "\<exists>j. convert_combination_find i sz st = Some j \<and> j < sz"
  using assms
proof (induction "sz - i" arbitrary: i)
  case 0
  then show ?case by (simp add: lut_is_defined_scan.simps [of i sz])
next
  case (Suc d)
  then have i: "i < sz" "d = sz - (i + 1)" by simp_all
  show ?case
  proof (cases "lut_is_defined_var i sz st")
    case None
    with Suc.prems i show ?thesis by (simp add: lut_is_defined_scan.simps [of i sz])
  next
    case (Some b)
    show ?thesis
    proof (cases b)
      case True
      with Some i show ?thesis by (simp add: convert_combination_find.simps [of i sz])
    next
      case False
      with Some Suc.prems i have "lut_is_defined_scan (i + 1) sz st = Some True"
        by (simp add: lut_is_defined_scan.simps [of i sz])
      from Suc.hyps(1) [OF i(2) this] False Some i show ?thesis
        by (simp add: convert_combination_find.simps [of i sz])
    qed
  qed
qed

lemma lut_is_defined_find:
  assumes "lut_is_defined sz st = Some True"
  shows "\<exists>j. convert_combination_find 0 sz st = Some j \<and> j < sz"
  using assms lut_is_defined_scan_find [of 0 sz st]
  by (simp add: lut_is_defined_def split: if_splits)

text \<open>
  C1: when the first eliminable position found by \<open>convert_combination\<close> is 1 or more,
  the returned truth table is the all-zero word.
\<close>

theorem convert_combination_zero:
  assumes "lut_is_defined (length vars) st = Some True"
    and "convert_combination_find 0 (length vars) st = Some i" and "1 \<le> i"
  shows "convert_combination vars st = Some (0, remove1 (vars ! i) vars, vars ! i)"
proof -
  from lut_is_defined_find [OF assms(1)] assms(2) have "i < length vars" by auto
  with assms show ?thesis
    by (simp add: convert_combination_def Let_def split: nat.splits)
qed

theorem convert_combination_zero_witness:
  "lut_is_defined (length [0, 1, 2 :: nat])
       (example_finder\<lparr>m_combination := 3, m_num_combinations := 2\<rparr>) = Some True
   \<and> convert_combination_find 0 (length [0, 1, 2 :: nat])
       (example_finder\<lparr>m_combination := 3, m_num_combinations := 2\<rparr>) = Some 1
   \<and> (1 :: nat) \<le> 1
   \<and> convert_combination [0, 1, 2] (example_finder\<lparr>m_combination := 3, m_num_combinations := 2\<rparr>)
       = Some (0, [0, 2], 1)"
proof -
  let ?st = "example_finder\<lparr>m_combination := 3, m_num_combinations := 2\<rparr>"
  have d: "lut_is_defined (length [0, 1, 2 :: nat]) ?st = Some True" by code_simp
  have a: "convert_combination_find 0 (length [0, 1, 2 :: nat]) ?st = Some 1" by code_simp
  have b: "(1 :: nat) \<le> 1" by simp
  from convert_combination_zero [OF d a b] d a b show ?thesis by simp
qed

text \<open>
  C5: when the eliminated position is 0, bit \<open>j\<close> of the returned truth table, for every
  \<open>j\<close> below \<open>2^n\<close> with \<open>n\<close> the number of remaining variables, is set exactly when
  bit \<open>2j\<close> of the combination word is unset.
\<close>

theorem convert_combination_position_0:
  assumes "lut_is_defined (length vars) st = Some True"
    and "convert_combination_find 0 (length vars) st = Some 0" and "length vars \<le> 6"
  shows "\<exists>r. convert_combination vars st = Some (r, remove1 (vars ! 0) vars, vars ! 0) \<and>
           length (remove1 (vars ! 0) vars) = length vars - 1 \<and>
           (\<forall>j < 2 ^ (length vars - 1). bit r j \<longleftrightarrow> \<not> bit (m_combination st) (2 * j))"
proof -
  from lut_is_defined_find [OF assms(1)] assms(2) have pos: "0 < length vars" by auto
  then have "vars ! 0 \<in> set vars" by simp
  then have len: "length (remove1 (vars ! 0) vars) = length vars - 1"
    by (simp add: length_remove1)
  then have le: "length (remove1 (vars ! 0) vars) \<le> 5" using assms(3) by simp
  show ?thesis
    using assms(1,2) pos le len
    by (simp add: convert_combination_def convert_combination_fold_bit Let_def)
qed

theorem convert_combination_position_0_witness:
  "lut_is_defined (length [0, 1, 2 :: nat])
       (example_finder\<lparr>m_combination := 5, m_num_combinations := 2\<rparr>) = Some True
   \<and> convert_combination_find 0 (length [0, 1, 2 :: nat])
       (example_finder\<lparr>m_combination := 5, m_num_combinations := 2\<rparr>) = Some 0
   \<and> length [0, 1, 2 :: nat] \<le> 6
   \<and> (\<exists>r. convert_combination [0, 1, 2] (example_finder\<lparr>m_combination := 5, m_num_combinations := 2\<rparr>)
          = Some (r, [1, 2], 0)
        \<and> (\<forall>j < 4. bit r j \<longleftrightarrow> \<not> bit (5 :: 64 word) (2 * j)))"
proof -
  let ?st = "example_finder\<lparr>m_combination := 5, m_num_combinations := 2\<rparr>"
  have d: "lut_is_defined (length [0, 1, 2 :: nat]) ?st = Some True" by code_simp
  have a: "convert_combination_find 0 (length [0, 1, 2 :: nat]) ?st = Some 0" by code_simp
  have b: "length [0, 1, 2 :: nat] \<le> 6" by simp
  have e: "m_combination ?st = 5" by (simp add: example_finder_def)
  from convert_combination_position_0 [OF d a b] d a b show ?thesis
    unfolding e by simp
qed

section \<open>The clause filter: properties\<close>

lemma bit_get_clause_filter_loop:
  "bit (get_clause_filter_loop ls filt) n \<longleftrightarrow>
     bit filt n \<or> (\<exists>l \<in> set ls. var l mod 32 = n)"
proof (induction ls arbitrary: filt)
  case Nil
  show ?case by simp
next
  case (Cons l ls)
  have "var l mod 32 < 32" by simp
  then show ?case
    by (auto simp add: Cons.IH bit_or_iff bit_one_shifted_32 simp del: push_bit_of_1)
qed

lemma bit_get_clause_filter:
  "bit (get_clause_filter c) n \<longleftrightarrow> (\<exists>l \<in> set (lits c). var l mod 32 = n)"
  by (simp add: get_clause_filter_def bit_get_clause_filter_loop)

text \<open>
  C7: if every variable of clause \<open>B\<close> occurs in clause \<open>A\<close>, then
  \<open>filterOf(A) | filterOf(B) = filterOf(A)\<close>.
\<close>

theorem get_clause_filter_monotonic:
  assumes "var ` set (lits B) \<subseteq> var ` set (lits A)"
  shows "get_clause_filter A OR get_clause_filter B = get_clause_filter A"
proof (rule bit_word_eqI)
  fix n
  have "\<exists>l \<in> set (lits A). var l mod 32 = n" if "l' \<in> set (lits B)" "var l' mod 32 = n" for l'
  proof -
    from that(1) assms have "var l' \<in> var ` set (lits A)" by blast
    then obtain l where "l \<in> set (lits A)" "var l = var l'" by auto
    with that(2) show ?thesis by metis
  qed
  then show "bit (get_clause_filter A OR get_clause_filter B) n \<longleftrightarrow> bit (get_clause_filter A) n"
    by (auto simp add: bit_or_iff bit_get_clause_filter)
qed

theorem get_clause_filter_monotonic_witness:
  "var ` set (lits \<lparr>lits = [Lit 33 True], was_removed = False, is_learned = False, was_used = False\<rparr>)
     \<subseteq> var ` set (lits \<lparr>lits = [Lit 0 False, Lit 33 False, Lit 2 True], was_removed = False,
                          is_learned = False, was_used = False\<rparr>)
   \<and> get_clause_filter \<lparr>lits = [Lit 0 False, Lit 33 False, Lit 2 True], was_removed = False,
                          is_learned = False, was_used = False\<rparr>
       OR get_clause_filter \<lparr>lits = [Lit 33 True], was_removed = False, is_learned = False,
                              was_used = False\<rparr>
     = get_clause_filter \<lparr>lits = [Lit 0 False, Lit 33 False, Lit 2 True], was_removed = False,
                            is_learned = False, was_used = False\<rparr>"
proof -
  let ?A = "\<lparr>lits = [Lit 0 False, Lit 33 False, Lit 2 True], was_removed = False,
             is_learned = False, was_used = False\<rparr>"
  let ?B = "\<lparr>lits = [Lit 33 True], was_removed = False, is_learned = False, was_used = False\<rparr>"
  have a: "var ` set (lits ?B) \<subseteq> var ` set (lits ?A)" by simp
  from get_clause_filter_monotonic [OF a] a show ?thesis by blast
qed

section \<open>The candidate search: properties\<close>

lemma frame_refl: "frame st st"
  by (simp add: frame_def)

lemma frame_trans: "frame st st1 \<Longrightarrow> frame st1 st2 \<Longrightarrow> frame st st2"
  by (simp add: frame_def)

lemma attempt_trans:
  assumes "attempt st False xs st1" and "attempt st1 b ys st2"
  shows "attempt st b (xs @ ys) st2"
proof -
  have fr: "frame st st1" and vis: "s_visited st1 = s_visited st"
    and vars: "m_vars st1 = m_vars st"
    and used1: "\<And>x. was_used (s_heap st1 x) \<longleftrightarrow> was_used (s_heap st x) \<or> x \<in> set xs"
    using assms(1) by (simp_all add: attempt_def)
  have "removable st y" if "removable st1 y" for y
    using that fr vis vars used1 [of y] by (auto simp add: removable_def frame_def)
  then have rem: "\<forall>y \<in> set ys. removable st y"
    using assms(2) by (simp add: attempt_def)
  show ?thesis
    using assms rem frame_trans [of st st1 st2]
    by (cases b) (auto simp add: attempt_def)
qed

lemma attempt_accumulator:
  "attempt st False [] (st\<lparr>m_clause := mc, m_missing := ms, m_combination := c, m_num_combinations := n\<rparr>)"
  by (simp add: attempt_def frame_def)

lemma set_combination_frame:
  assumes "set_combination x st = Some st'"
  shows "\<exists>c n. st' = st\<lparr>m_combination := c, m_num_combinations := n\<rparr>"
proof (cases "get_combination x st")
  case True
  with assms have "st' = st" by (simp add: set_combination_def split: if_splits)
  then have "st' = st\<lparr>m_combination := m_combination st, m_num_combinations := m_num_combinations st\<rparr>"
    by simp
  then show ?thesis by blast
next
  case False
  with assms show ?thesis by (auto simp add: set_combination_def split: if_splits)
qed

lemma update_combinations_loop_frame:
  assumes "update_combinations_loop missing msk k st = Some st'"
  shows "\<exists>c n. st' = st\<lparr>m_combination := c, m_num_combinations := n\<rparr>"
  using assms
proof (induction "2 ^ length missing - k" arbitrary: k st)
  case 0
  then have "st' = st" by (simp add: update_combinations_loop.simps [of missing msk k])
  then have "st' = st\<lparr>m_combination := m_combination st, m_num_combinations := m_num_combinations st\<rparr>"
    by simp
  then show ?case by blast
next
  case (Suc d)
  then have k: "k < 2 ^ length missing" and d: "d = 2 ^ length missing - (k + 1)" by simp_all
  from Suc.prems k obtain st1 where
    st1: "set_combination (update_combinations_inner missing k 0 msk) st = Some st1"
    and rest: "update_combinations_loop missing msk (k + 1) st1 = Some st'"
    by (auto simp add: update_combinations_loop.simps [of missing msk k] split: option.splits)
  from set_combination_frame [OF st1] obtain c1 n1
    where "st1 = st\<lparr>m_combination := c1, m_num_combinations := n1\<rparr>" by blast
  moreover from Suc.hyps(1) [OF d rest] obtain c n
    where "st' = st1\<lparr>m_combination := c, m_num_combinations := n\<rparr>" by blast
  ultimately have "st' = st\<lparr>m_combination := c, m_num_combinations := n\<rparr>" by simp
  then show ?case by blast
qed

lemma update_combinations_frame:
  assumes "update_combinations msk st = Some (b, st')"
  shows "\<exists>c n. st' = st\<lparr>m_combination := c, m_num_combinations := n\<rparr>"
  using assms update_combinations_loop_frame [of "m_missing st" msk 0 st]
  by (auto simp add: update_combinations_def split: if_splits option.splits)

lemma extract_lut_binary_attempt:
  assumes "extract_lut_binary l1 l2 st = Inr (b, st')"
  shows "attempt st False [] st'"
proof -
  from assms obtain msk missing where
    "update_combinations msk (st\<lparr>m_missing := missing\<rparr>) = Some (b, st')"
    by (auto simp add: extract_lut_binary_def split: if_splits prod.splits option.splits)
  from update_combinations_frame [OF this] obtain c n
    where "st' = st\<lparr>m_missing := missing, m_combination := c, m_num_combinations := n\<rparr>" by auto
  then have "st' = st\<lparr>m_clause := m_clause st, m_missing := missing, m_combination := c,
      m_num_combinations := n\<rparr>" by simp
  then show ?thesis using attempt_accumulator [of st] by metis
qed

lemma add_lut_attempt:
  assumes "add_lut st = Inr st'"
  shows "attempt st True [] st'"
  using assms
  by (auto simp add: add_lut_def attempt_def frame_def Let_def split: if_splits option.splits)

lemma extract_lut_clause_attempt:
  assumes "extract_lut_clause a2 st = Inr (b, st')"
    and "\<not> was_used (s_heap st a2)"
    and "\<exists>v. a2 \<in> snd ` set (m_clause_filters st v)"
  shows "\<exists>xs. attempt st False xs st'"
proof (cases "\<exists>l \<in> set (lits (s_heap st a2)). var l \<notin> s_visited st")
  case True
  with assms(1) have "st' = st" by (simp add: extract_lut_clause_def Let_def)
  then have "attempt st False [] st'" by (simp add: attempt_def frame_refl)
  then show ?thesis by blast
next
  case False
  let ?n = "length (m_vars st)"
  let ?c2 = "lits (s_heap st a2)"
  let ?st1 = "if length ?c2 = ?n
      then mark_used a2 (st\<lparr>m_clauses_to_remove := m_clauses_to_remove st @ [a2]\<rparr>) else st"
  let ?xs = "if length ?c2 = ?n then [a2] else []"
  have rem: "removable st a2" if "length ?c2 = ?n"
    using that False assms(2,3) by (auto simp add: removable_def)
  have first: "attempt st False ?xs ?st1"
    using rem by (auto simp add: attempt_def frame_def mark_used_def)
  from assms(1) False obtain mc msk missing where
    "update_combinations msk (?st1\<lparr>m_clause := mc, m_missing := missing\<rparr>) = Some (b, st')"
    by (auto simp add: extract_lut_clause_def Let_def split: if_splits prod.splits option.splits)
  from update_combinations_frame [OF this] obtain c n
    where "st' = ?st1\<lparr>m_clause := mc, m_missing := missing, m_combination := c,
      m_num_combinations := n\<rparr>" by auto
  then have "attempt ?st1 False [] st'" using attempt_accumulator [of ?st1] by metis
  with first have "attempt st False (?xs @ []) st'" by (rule attempt_trans)
  then show ?thesis by blast
qed

lemma attempt_index:
  assumes "attempt st b xs st'"
  shows "m_clause_filters st' = m_clause_filters st"
  using assms by (simp add: attempt_def frame_def)

lemma attempt_used_mono:
  assumes "attempt st b xs st'" and "was_used (s_heap st x)"
  shows "was_used (s_heap st' x)"
  using assms by (simp add: attempt_def)

lemma check_lut_filters_attempt:
  assumes "check_lut_filters filt cfs st = Inr (b, st')"
    and "\<forall>cf \<in> set cfs. \<exists>v. cf \<in> set (m_clause_filters st v)"
  shows "\<exists>xs. attempt st b xs st'"
  using assms
proof (induction cfs arbitrary: st)
  case Nil
  then have "attempt st b [] st'" by (simp add: attempt_def frame_refl)
  then show ?case by blast
next
  case (Cons cf cfs)
  show ?case
  proof (cases "filt = (filt OR fst cf) \<and> \<not> was_used (s_heap st (snd cf))")
    case False
    with Cons.prems have "check_lut_filters filt cfs st = Inr (b, st')" by auto
    with Cons.IH Cons.prems(2) show ?thesis by simp
  next
    case True
    with Cons.prems(1) obtain b1 st1 where
      ex: "extract_lut_clause (snd cf) st = Inr (b1, st1)"
      by (auto split: sum.splits)
    have "\<exists>v. snd cf \<in> snd ` set (m_clause_filters st v)"
      using Cons.prems(2) by (metis image_eqI list.set_intros(1))
    from extract_lut_clause_attempt [OF ex _ this] True obtain xs
      where a1: "attempt st False xs st1" by blast
    show ?thesis
    proof (cases b1)
      case True
      with Cons.prems(1) \<open>filt = (filt OR fst cf) \<and> \<not> was_used (s_heap st (snd cf))\<close> ex
      have "b" and "add_lut st1 = Inr st'"
        by (auto split: sum.splits)
      with attempt_trans [OF a1 add_lut_attempt [of st1 st']]
      have "attempt st b (xs @ []) st'" by simp
      then show ?thesis by blast
    next
      case False
      with Cons.prems(1) \<open>filt = (filt OR fst cf) \<and> \<not> was_used (s_heap st (snd cf))\<close> ex
      have rest: "check_lut_filters filt cfs st1 = Inr (b, st')" by simp
      have "\<forall>cf \<in> set cfs. \<exists>v. cf \<in> set (m_clause_filters st1 v)"
        using Cons.prems(2) attempt_index [OF a1] by simp
      from Cons.IH [OF rest this] obtain ys where "attempt st1 b ys st'" by blast
      with a1 have "attempt st b (xs @ ys) st'" by (rule attempt_trans)
      then show ?thesis by blast
    qed
  qed
qed

lemma check_lut_watches_attempt:
  assumes "check_lut_watches idx l ws st = Inr (b, st')"
  shows "\<exists>xs. attempt st b xs st'"
  using assms
proof (induction ws arbitrary: st)
  case Nil
  then have "attempt st b [] st'" by (simp add: attempt_def frame_refl)
  then show ?case by blast
next
  case (Cons w ws)
  let ?go = "is_binary_clause w \<and> var (get_literal w) \<in> s_visited st
      \<and> idx (get_literal w) < idx l"
  show ?case
  proof (cases ?go)
    case False
    with Cons.prems have "check_lut_watches idx l ws st = Inr (b, st')" by auto
    with Cons.IH show ?thesis by simp
  next
    case go: True
    with Cons.prems obtain b1 st1 where
      ex: "extract_lut_binary (neg l) (get_literal w) st = Inr (b1, st1)"
      by (auto split: sum.splits)
    note a1 = extract_lut_binary_attempt [OF ex]
    show ?thesis
    proof (cases b1)
      case True
      with Cons.prems go ex have "b" and "add_lut st1 = Inr st'"
        by (auto split: sum.splits)
      with attempt_trans [OF a1 add_lut_attempt [of st1 st']]
      have "attempt st b ([] @ []) st'" by simp
      then show ?thesis by blast
    next
      case False
      with Cons.prems go ex
      have rest: "check_lut_watches idx l ws st1 = Inr (b, st')" by simp
      from Cons.IH [OF rest] obtain ys where "attempt st1 b ys st'" by blast
      with a1 have "attempt st b ([] @ ys) st'" by (rule attempt_trans)
      then show ?thesis by blast
    qed
  qed
qed

lemma check_lut_literals_attempt:
  assumes "check_lut_literals idx filt ls st = Inr (b, st')"
  shows "\<exists>xs. attempt st b xs st'"
  using assms
proof (induction ls arbitrary: st)
  case Nil
  then have "attempt st b [] st'" by (simp add: attempt_def frame_refl)
  then show ?case by blast
next
  case (Cons l ls)
  from Cons.prems obtain b1 st1 where
    s1: "check_lut_filters filt (m_clause_filters st (var l)) st = Inr (b1, st1)"
    by (auto split: sum.splits)
  have "\<forall>cf \<in> set (m_clause_filters st (var l)). \<exists>v. cf \<in> set (m_clause_filters st v)"
    by blast
  from check_lut_filters_attempt [OF s1 this] obtain xs1 where a1: "attempt st b1 xs1 st1"
    by blast
  show ?case
  proof (cases b1)
    case True
    with Cons.prems s1 have "b" "st' = st1" by simp_all
    with a1 True show ?thesis by auto
  next
    case f1: False
    with Cons.prems s1 obtain b2 st2 where
      s2: "check_lut_watches idx l (s_wlist st1 l) st1 = Inr (b2, st2)"
      by (auto split: sum.splits)
    from check_lut_watches_attempt [OF s2] obtain xs2 where x2: "attempt st1 b2 xs2 st2" by blast
    from a1 f1 have "attempt st False xs1 st1" by simp
    from attempt_trans [OF this x2]
    have a2: "attempt st b2 (xs1 @ xs2) st2" .
    show ?thesis
    proof (cases b2)
      case True
      with Cons.prems s1 f1 s2 have "b" "st' = st2" by simp_all
      with a2 True show ?thesis by auto
    next
      case f2: False
      with Cons.prems s1 f1 s2 obtain b3 st3 where
        s3: "check_lut_watches idx (neg l) (s_wlist st2 (neg l)) st2 = Inr (b3, st3)"
        by (auto split: sum.splits)
      from check_lut_watches_attempt [OF s3] obtain xs3 where x3: "attempt st2 b3 xs3 st3" by blast
      from a2 f2 have "attempt st False (xs1 @ xs2) st2" by simp
      from attempt_trans [OF this x3]
      have a3: "attempt st b3 ((xs1 @ xs2) @ xs3) st3" .
      show ?thesis
      proof (cases b3)
        case True
        with Cons.prems s1 f1 s2 f2 s3 have "b" "st' = st3" by simp_all
        with a3 True show ?thesis by auto
      next
        case f3: False
        with Cons.prems s1 f1 s2 f2 s3
        have rest: "check_lut_literals idx filt ls st3 = Inr (b, st')" by simp
        from Cons.IH [OF rest] obtain ys where y: "attempt st3 b ys st'" by blast
        from a3 f3 have "attempt st False ((xs1 @ xs2) @ xs3) st3" by simp
        from attempt_trans [OF this y] show ?thesis by blast
      qed
    qed
  qed
qed

lemma check_lut_seed_state:
  "\<exists>f. snd (check_lut_seed c i msk st)
        = st\<lparr>m_vars := m_vars st @ map var c, m_var_position := f,
              s_visited := s_visited st \<union> var ` set c\<rparr>"
proof (induction c arbitrary: i msk st)
  case Nil
  have "st = st\<lparr>m_vars := m_vars st @ map var [], m_var_position := m_var_position st,
              s_visited := s_visited st \<union> var ` set []\<rparr>" by simp
  then show ?case by (metis check_lut_seed.simps(1) snd_conv)
next
  case (Cons l ls)
  let ?st1 = "st\<lparr>m_vars := m_vars st @ [var l],
           m_var_position := (m_var_position st)(var l := i),
           s_visited := insert (var l) (s_visited st)\<rparr>"
  from Cons [of "i + 1" "msk OR push_bit i (of_bool (sign l))" ?st1]
  obtain f where "snd (check_lut_seed (l # ls) i msk st)
     = ?st1\<lparr>m_vars := m_vars ?st1 @ map var ls, m_var_position := f,
              s_visited := s_visited ?st1 \<union> var ` set ls\<rparr>"
    by auto
  then have "snd (check_lut_seed (l # ls) i msk st)
     = st\<lparr>m_vars := m_vars st @ map var (l # ls), m_var_position := f,
              s_visited := s_visited st \<union> var ` set (l # ls)\<rparr>"
    by simp
  then show ?case by blast
qed

lemma check_lut_summary:
  assumes "check_lut idx a st = Inr (b, st')"
  shows "frame st st' \<and>
     (\<exists>xs. m_clauses_to_remove st' = a # xs \<and>
        (\<forall>x \<in> set xs. \<not> was_used (s_heap st x) \<and> x \<noteq> a \<and>
            length (lits (s_heap st x)) = length (lits (s_heap st a)) \<and>
            var ` set (lits (s_heap st x)) \<subseteq> var ` set (lits (s_heap st a)) \<and>
            (\<exists>v. x \<in> snd ` set (m_clause_filters st v))) \<and>
        (\<forall>x. was_used (s_heap st' x) \<longleftrightarrow> was_used (s_heap st x) \<or> x = a \<or> x \<in> set xs)) \<and>
     (if b then length (on_lut st') = Suc (length (on_lut st)) \<and>
               m_removed_clauses st' = m_removed_clauses st @ m_clauses_to_remove st'
      else on_lut st' = on_lut st \<and> m_removed_clauses st' = m_removed_clauses st)"
proof -
  let ?c = "lits (s_heap st a)"
  obtain msk0 st0 where seed: "check_lut_seed ?c 0 0 (st\<lparr>s_visited := {}, m_vars := []\<rparr>) = (msk0, st0)"
    by (cases "check_lut_seed ?c 0 0 (st\<lparr>s_visited := {}, m_vars := []\<rparr>)") blast
  from check_lut_seed_state [of ?c 0 0 "st\<lparr>s_visited := {}, m_vars := []\<rparr>"] seed
  obtain f where st0: "st0 = st\<lparr>m_vars := map var ?c, m_var_position := f,
      s_visited := var ` set ?c\<rparr>"
    by auto
  let ?st1 = "st0\<lparr>m_clauses_to_remove := [a],
      m_clause := take (length ?c) (m_clause st0) @ replicate (length ?c - length (m_clause st0)) None,
      m_combination := 0, m_num_combinations := 0\<rparr>"
  from assms seed obtain st2 where
    sc: "set_combination msk0 ?st1 = Some st2"
    and lits: "check_lut_literals idx (get_clause_filter (s_heap st a)) ?c (mark_used a st2) = Inr (b, st')"
    by (auto simp add: check_lut_def Let_def split: if_splits option.splits)
  from set_combination_frame [OF sc] obtain c n
    where st2: "st2 = ?st1\<lparr>m_combination := c, m_num_combinations := n\<rparr>" by blast
  let ?s = "mark_used a st2"
  from check_lut_literals_attempt [OF lits] obtain xs where att: "attempt ?s b xs st'" by blast
  have fr: "frame st ?s"
    by (simp add: st2 st0 frame_def mark_used_def)
  have s_fields: "m_clauses_to_remove ?s = [a]" "s_visited ?s = var ` set ?c"
    "m_vars ?s = map var ?c" "on_lut ?s = on_lut st" "m_removed_clauses ?s = m_removed_clauses st"
    "m_clause_filters ?s = m_clause_filters st"
    "\<And>x. lits (s_heap ?s x) = lits (s_heap st x)"
    "\<And>x. was_used (s_heap ?s x) \<longleftrightarrow> was_used (s_heap st x) \<or> x = a"
    by (simp_all add: st2 st0 mark_used_def)
  have "frame st st'" using fr att by (auto simp add: attempt_def intro: frame_trans)
  moreover have "m_clauses_to_remove st' = a # xs"
    using att s_fields(1) by (simp add: attempt_def)
  moreover have "\<forall>x \<in> set xs. \<not> was_used (s_heap st x) \<and> x \<noteq> a \<and>
            length (lits (s_heap st x)) = length (lits (s_heap st a)) \<and>
            var ` set (lits (s_heap st x)) \<subseteq> var ` set (lits (s_heap st a)) \<and>
            (\<exists>v. x \<in> snd ` set (m_clause_filters st v))"
  proof
    fix x assume "x \<in> set xs"
    with att have "removable ?s x" by (simp add: attempt_def)
    then show "\<not> was_used (s_heap st x) \<and> x \<noteq> a \<and>
            length (lits (s_heap st x)) = length (lits (s_heap st a)) \<and>
            var ` set (lits (s_heap st x)) \<subseteq> var ` set (lits (s_heap st a)) \<and>
            (\<exists>v. x \<in> snd ` set (m_clause_filters st v))"
      unfolding removable_def s_fields by simp
  qed
  moreover have "\<forall>x. was_used (s_heap st' x) \<longleftrightarrow> was_used (s_heap st x) \<or> x = a \<or> x \<in> set xs"
    using att s_fields(8) by (simp add: attempt_def)
  moreover have "if b then length (on_lut st') = Suc (length (on_lut st)) \<and>
               m_removed_clauses st' = m_removed_clauses st @ m_clauses_to_remove st'
      else on_lut st' = on_lut st \<and> m_removed_clauses st' = m_removed_clauses st"
    using att s_fields(4,5) by (cases b) (simp_all add: attempt_def)
  ultimately show ?thesis by blast
qed

lemma extract_lut_clause_schedules:
  assumes "extract_lut_clause a2 s = Inr (b, s')"
  shows "m_clauses_to_remove s' =
           (if (\<forall>l \<in> set (lits (s_heap s a2)). var l \<in> s_visited s)
               \<and> length (lits (s_heap s a2)) = length (m_vars s)
            then m_clauses_to_remove s @ [a2] else m_clauses_to_remove s)"
proof (cases "\<exists>l \<in> set (lits (s_heap s a2)). var l \<notin> s_visited s")
  case True
  with assms have "s' = s" by (simp add: extract_lut_clause_def Let_def)
  with True show ?thesis by auto
next
  case False
  let ?st1 = "if length (lits (s_heap s a2)) = length (m_vars s)
      then mark_used a2 (s\<lparr>m_clauses_to_remove := m_clauses_to_remove s @ [a2]\<rparr>) else s"
  from assms False obtain mc msk missing where
    "update_combinations msk (?st1\<lparr>m_clause := mc, m_missing := missing\<rparr>) = Some (b, s')"
    by (auto simp add: extract_lut_clause_def Let_def split: if_splits prod.splits option.splits)
  from update_combinations_frame [OF this] obtain c n
    where "s' = ?st1\<lparr>m_clause := mc, m_missing := missing, m_combination := c,
      m_num_combinations := n\<rparr>" by auto
  then show ?thesis using False by (simp add: mark_used_def)
qed

lemma extract_lut_binary_schedules:
  assumes "extract_lut_binary l1 l2 s = Inr (b, s')"
  shows "m_clauses_to_remove s' = m_clauses_to_remove s"
  using extract_lut_binary_attempt [OF assms] by (simp add: attempt_def)

subsection \<open>The rows of the clauses an attempt marks\<close>

lemma update_combinations_inner_zero:
  "update_combinations_inner missing 0 i mask2 = mask2"
  by (rule bit_word_eqI) (simp add: bit_update_combinations_inner)

lemma set_combination_mono:
  assumes "set_combination x st = Some st'"
  shows "(\<forall>r. bit (m_combination st) r \<longrightarrow> bit (m_combination st') r)
       \<and> bit (m_combination st') (unat x)"
proof (cases "get_combination x st")
  case True
  with assms have "st' = st" by (simp add: set_combination_def split: if_splits)
  with True show ?thesis by (simp add: get_combination_def)
next
  case False
  with assms have lt: "unat x < 64"
    and st': "st' = st\<lparr>m_combination := m_combination st OR push_bit (unat x) 1,
                    m_num_combinations := m_num_combinations st + 1\<rparr>"
    by (auto simp add: set_combination_def split: if_splits)
  show ?thesis
    using lt by (simp add: st' bit_or_iff bit_one_shifted_64 del: push_bit_of_1)
qed

lemma update_combinations_loop_mono:
  assumes "update_combinations_loop missing msk k st = Some st'"
  shows "(\<forall>r. bit (m_combination st) r \<longrightarrow> bit (m_combination st') r)
       \<and> (\<forall>k'. k \<le> k' \<and> k' < 2 ^ length missing \<longrightarrow>
             bit (m_combination st') (unat (update_combinations_inner missing k' 0 msk)))"
  using assms
proof (induction "2 ^ length missing - k" arbitrary: k st)
  case 0
  then have k: "\<not> k < 2 ^ length missing" by simp
  with 0(2) have "st' = st" by (simp add: update_combinations_loop.simps [of missing msk k])
  moreover from k have "\<not> (k \<le> k' \<and> k' < 2 ^ length missing)" for k' by simp
  ultimately show ?case by blast
next
  case (Suc d)
  then have k: "k < 2 ^ length missing" and d: "d = 2 ^ length missing - (k + 1)" by simp_all
  from Suc.prems k obtain st1 where
    st1: "set_combination (update_combinations_inner missing k 0 msk) st = Some st1"
    and rest: "update_combinations_loop missing msk (k + 1) st1 = Some st'"
    by (auto simp add: update_combinations_loop.simps [of missing msk k] split: option.splits)
  note a = set_combination_mono [OF st1]
  note b = Suc.hyps(1) [OF d rest]
  have "bit (m_combination st') (unat (update_combinations_inner missing k' 0 msk))"
    if "k \<le> k'" "k' < 2 ^ length missing" for k'
  proof (cases "k' = k")
    case True
    with a b show ?thesis by blast
  next
    case False
    with that have "k + 1 \<le> k'" by simp
    with b that(2) show ?thesis by blast
  qed
  with a b show ?case by blast
qed

lemma update_combinations_mono:
  assumes "update_combinations msk st = Some (b, st')"
  shows "(\<forall>r. bit (m_combination st) r \<longrightarrow> bit (m_combination st') r)
       \<and> bit (m_combination st') (unat msk)"
proof -
  from assms have "update_combinations_loop (m_missing st) msk 0 st = Some st'"
    by (auto simp add: update_combinations_def split: if_splits option.splits)
  from update_combinations_loop_mono [OF this] update_combinations_inner_zero [of "m_missing st" 0 msk]
  show ?thesis by (metis le0 zero_less_numeral zero_less_power)
qed

lemma extract_lut_place_length:
  assumes "extract_lut_place ls pos mc = Some mc'"
  shows "length mc' = length mc"
  using assms by (induction ls arbitrary: mc) (auto split: if_splits)

lemma extract_lut_place_signs:
  assumes "extract_lut_place ls pos mc = Some mc'"
    and "distinct (map var ls)" and "inj_on pos (var ` set ls)" and "j < length mc"
  shows "(\<exists>lit. mc' ! j = Some lit \<and> sign lit) \<longleftrightarrow>
           (\<exists>l \<in> set ls. pos (var l) = j \<and> sign l)
         \<or> ((\<forall>l \<in> set ls. pos (var l) \<noteq> j) \<and> (\<exists>lit. mc ! j = Some lit \<and> sign lit))"
  using assms
proof (induction ls arbitrary: mc)
  case Nil
  then show ?case by simp
next
  case (Cons l ls)
  let ?mc1 = "mc[pos (var l) := Some l]"
  from Cons.prems(1) have p: "pos (var l) < length mc"
    and run: "extract_lut_place ls pos ?mc1 = Some mc'"
    by (auto split: if_splits)
  have d: "distinct (map var ls)" and i: "inj_on pos (var ` set ls)"
    using Cons.prems(2,3) by (auto simp add: inj_on_def)
  have j1: "j < length ?mc1" using Cons.prems(4) by simp
  note IH = Cons.IH [OF run d i j1]
  have other: "pos (var l') \<noteq> pos (var l)" if "l' \<in> set ls" for l'
  proof
    assume e: "pos (var l') = pos (var l)"
    have "var l' \<in> var ` set (l # ls)" "var l \<in> var ` set (l # ls)" using that by auto
    with e Cons.prems(3) have "var l' = var l" by (meson inj_onD)
    moreover from that have "var l' \<in> var ` set ls" by simp
    ultimately show False using Cons.prems(2) by simp
  qed
  show ?case
  proof (cases "j = pos (var l)")
    case True
    with other have none: "\<forall>l' \<in> set ls. pos (var l') \<noteq> j" by auto
    have "?mc1 ! j = Some l" using True p by simp
    with IH none show ?thesis using True by auto
  next
    case False
    then have "?mc1 ! j = mc ! j" by simp
    with IH False show ?thesis by auto
  qed
qed

lemma extract_lut_scan_bits:
  assumes "extract_lut_scan mc j msk missing = (msk', missing')" and "j + length mc \<le> 32"
  shows "bit msk' q \<longleftrightarrow>
           bit msk q \<or> (j \<le> q \<and> q < j + length mc \<and> (\<exists>lit. mc ! (q - j) = Some lit \<and> sign lit))"
  using assms
proof (induction mc j msk missing rule: extract_lut_scan.induct)
  case (1 j msk missing)
  then show ?case by auto
next
  case (2 mc j msk missing)
  from 2(2,3) have run: "extract_lut_scan mc (j + 1) msk (missing @ [j]) = (msk', missing')"
    and len: "j + 1 + length mc \<le> 32" by simp_all
  note IH = 2(1) [OF run len]
  have "(j \<le> q \<and> q < j + length (None # mc) \<and> (\<exists>lit. (None # mc) ! (q - j) = Some lit \<and> sign lit))
      \<longleftrightarrow> (j + 1 \<le> q \<and> q < j + 1 + length mc \<and> (\<exists>lit. mc ! (q - (j + 1)) = Some lit \<and> sign lit))"
  proof (cases "q = j")
    case True
    then show ?thesis by simp
  next
    case False
    then show ?thesis by (cases "j \<le> q") (auto simp add: nth_Cons')
  qed
  with IH show ?case by simp
next
  case (3 lit0 mc j msk missing)
  let ?m = "msk OR push_bit j (of_bool (sign lit0))"
  from 3(2,3) have run: "extract_lut_scan mc (j + 1) ?m missing = (msk', missing')"
    and len: "j + 1 + length mc \<le> 32" by simp_all
  note IH = 3(1) [OF run len]
  have b: "bit ?m q \<longleftrightarrow> bit msk q \<or> (q = j \<and> sign lit0)"
    using len by (cases "sign lit0") (auto simp add: bit_or_iff bit_one_shifted_32 simp del: push_bit_of_1)
  have "(j \<le> q \<and> q < j + length (Some lit0 # mc)
          \<and> (\<exists>lit. (Some lit0 # mc) ! (q - j) = Some lit \<and> sign lit))
      \<longleftrightarrow> (q = j \<and> sign lit0)
          \<or> (j + 1 \<le> q \<and> q < j + 1 + length mc \<and> (\<exists>lit. mc ! (q - (j + 1)) = Some lit \<and> sign lit))"
  proof (cases "q = j")
    case True
    then show ?thesis by simp
  next
    case False
    then show ?thesis by (cases "j \<le> q") (auto simp add: nth_Cons')
  qed
  with IH b show ?case by auto
qed

lemma bit_clause_row:
  "bit (clause_row vars ls) q \<longleftrightarrow> q < length vars \<and> (\<exists>l \<in> set ls. var l = vars ! q \<and> sign l)"
  by (auto simp add: clause_row_def bit_horner_sum_bit_iff)

lemma bit_sign_row:
  "bit (sign_row ls) q \<longleftrightarrow> q < length ls \<and> sign (ls ! q)"
  by (auto simp add: sign_row_def bit_horner_sum_bit_iff)

lemma unat_eq_row:
  fixes msk :: "32 word"
  assumes "\<And>q. bit msk q \<longleftrightarrow> bit r q"
  shows "unat msk = (r::nat)"
  by (rule bit_eqI) (simp add: bit_unsigned_iff assms)

lemma positioned_onto:
  assumes pos: "positioned st"
    and vis: "\<forall>l \<in> set c2. var l \<in> s_visited st"
    and dist: "distinct (map var c2)" and len: "length c2 = length (m_vars st)"
    and q: "q < length (m_vars st)" and l: "l \<in> set c2"
  shows "m_var_position st (var l) = q \<longleftrightarrow> var l = m_vars st ! q"
proof
  assume "m_var_position st (var l) = q"
  with pos vis l show "var l = m_vars st ! q" by (auto simp add: positioned_def)
next
  assume e: "var l = m_vars st ! q"
  let ?p = "m_var_position st" and ?V = "var ` set c2" and ?n = "length (m_vars st)"
  have inv: "m_vars st ! ?p v = v" if "v \<in> ?V" for v
    using that pos vis by (auto simp add: positioned_def)
  have inj: "inj_on ?p ?V"
    by (rule inj_on_inverseI [where g = "\<lambda>j. m_vars st ! j"]) (rule inv)
  have sub: "?p ` ?V \<subseteq> {..<?n}"
    using pos vis by (auto simp add: positioned_def)
  have "card ?V = ?n"
    using dist len distinct_card [of "map var c2"] by simp
  then have "card (?p ` ?V) = card {..<?n}" using inj by (simp add: card_image)
  with sub have "?p ` ?V = {..<?n}" by (intro card_subset_eq) simp_all
  with q obtain v where v: "v \<in> ?V" and pv: "?p v = q" by (metis imageE lessThan_iff)
  from inv [OF v] pv have "v = m_vars st ! q" by simp
  with e pv show "?p (var l) = q" by simp
qed

lemma extract_lut_clause_rows_kept:
  assumes ex: "extract_lut_clause a2 st = Inr (b, st')" and pos: "positioned st"
  shows "rows_kept st st'"
proof (cases "\<exists>l \<in> set (lits (s_heap st a2)). var l \<notin> s_visited st")
  case True
  with ex have "st' = st" by (simp add: extract_lut_clause_def Let_def)
  then show ?thesis by (auto simp add: rows_kept_def)
next
  case False
  let ?n = "length (m_vars st)"
  let ?c2 = "lits (s_heap st a2)"
  let ?st1 = "if length ?c2 = ?n
      then mark_used a2 (st\<lparr>m_clauses_to_remove := m_clauses_to_remove st @ [a2]\<rparr>) else st"
  let ?mc0 = "replicate ?n None @ drop ?n (m_clause st)"
  from ex False obtain mc msk missing where
    place: "extract_lut_place ?c2 (m_var_position st) ?mc0 = Some mc"
    and scan: "extract_lut_scan (take ?n mc) 0 0 [] = (msk, missing)"
    and up: "update_combinations msk (?st1\<lparr>m_clause := mc, m_missing := missing\<rparr>) = Some (b, st')"
    and n32: "?n \<le> 32" and nmc: "?n \<le> length (m_clause st)"
    by (auto simp add: extract_lut_clause_def Let_def mark_used_def
        split: if_splits prod.splits option.splits)
  from update_combinations_frame [OF up] obtain c n
    where st': "st' = ?st1\<lparr>m_clause := mc, m_missing := missing, m_combination := c,
      m_num_combinations := n\<rparr>" by auto
  from update_combinations_mono [OF up]
  have mono: "\<And>r. bit (m_combination st) r \<Longrightarrow> bit (m_combination st') r"
    and row: "bit (m_combination st') (unat msk)"
    by (simp_all add: mark_used_def)
  have posn: "m_var_position st' = m_var_position st"
    by (simp add: st' mark_used_def)
  have "bit (m_combination st') (clause_row (m_vars st) (lits (s_heap st x)))"
    if new: "was_used (s_heap st' x)" "\<not> was_used (s_heap st x)"
      and dist: "all_distinct (s_heap st x)" for x
  proof -
    from new have x: "x = a2" and len: "length ?c2 = ?n"
      by (auto simp add: st' mark_used_def split: if_splits)
    from dist x have d: "distinct (map var ?c2)" by (simp add: all_distinct_def)
    from False have vis: "\<forall>l \<in> set ?c2. var l \<in> s_visited st" by blast
    have lmc: "length mc = length ?mc0" using place by (rule extract_lut_place_length)
    then have ltake: "length (take ?n mc) = ?n" using nmc by simp
    have inv: "m_vars st ! m_var_position st v = v" if "v \<in> var ` set ?c2" for v
      using that pos vis by (auto simp add: positioned_def)
    have inj: "inj_on (m_var_position st) (var ` set ?c2)"
      by (rule inj_on_inverseI [where g = "\<lambda>j. m_vars st ! j"]) (rule inv)
    have "bit msk q \<longleftrightarrow> bit (clause_row (m_vars st) ?c2) q" for q
    proof (cases "q < ?n")
      case False
      with extract_lut_scan_bits [OF scan, of q] ltake n32 show ?thesis
        by (simp add: bit_clause_row)
    next
      case True
      then have q0: "q < length ?mc0" by simp
      have none: "?mc0 ! q = None" using True by (simp add: nth_append)
      have tq: "take ?n mc ! q = mc ! q" using True by simp
      have qmc: "q < length mc" using True lmc by simp
      have "bit msk q \<longleftrightarrow> (\<exists>lit. mc ! q = Some lit \<and> sign lit)"
        using extract_lut_scan_bits [OF scan, of q] ltake n32 True tq qmc by simp
      also have "\<dots> \<longleftrightarrow> (\<exists>l \<in> set ?c2. m_var_position st (var l) = q \<and> sign l)"
        using extract_lut_place_signs [OF place d inj q0] none by simp
      also have "\<dots> \<longleftrightarrow> (\<exists>l \<in> set ?c2. var l = m_vars st ! q \<and> sign l)"
        using positioned_onto [OF pos vis d len True] by blast
      finally show ?thesis using True by (simp add: bit_clause_row)
    qed
    then have "unat msk = clause_row (m_vars st) ?c2" by (rule unat_eq_row)
    with row x show ?thesis by simp
  qed
  with mono posn show ?thesis unfolding rows_kept_def by blast
qed

lemma extract_lut_binary_rows_kept:
  assumes "extract_lut_binary l1 l2 st = Inr (b, st')"
  shows "rows_kept st st'"
proof -
  from assms obtain msk missing where
    up: "update_combinations msk (st\<lparr>m_missing := missing\<rparr>) = Some (b, st')"
    by (auto simp add: extract_lut_binary_def split: if_splits prod.splits option.splits)
  from update_combinations_frame [OF up] obtain c n
    where "st' = st\<lparr>m_missing := missing, m_combination := c, m_num_combinations := n\<rparr>" by auto
  with update_combinations_mono [OF up] show ?thesis by (auto simp add: rows_kept_def)
qed

lemma add_lut_rows_kept:
  assumes "add_lut st = Inr st'"
  shows "rows_kept st st'"
  using assms
  by (auto simp add: add_lut_def rows_kept_def Let_def split: if_splits option.splits)

lemma rows_kept_refl: "rows_kept st st"
  by (auto simp add: rows_kept_def)

lemma rows_kept_trans:
  assumes att: "attempt st False xs st1" and r1: "rows_kept st st1" and r2: "rows_kept st1 st2"
  shows "rows_kept st st2"
proof -
  from att have vars: "m_vars st1 = m_vars st"
    and lits: "\<And>x. lits (s_heap st1 x) = lits (s_heap st x)"
    by (simp_all add: attempt_def frame_def)
  have "bit (m_combination st2) (clause_row (m_vars st) (lits (s_heap st x)))"
    if new: "was_used (s_heap st2 x)" "\<not> was_used (s_heap st x)"
      and dist: "all_distinct (s_heap st x)" for x
  proof (cases "was_used (s_heap st1 x)")
    case True
    with new(2) dist r1 have "bit (m_combination st1) (clause_row (m_vars st) (lits (s_heap st x)))"
      by (simp add: rows_kept_def)
    with r2 show ?thesis by (simp add: rows_kept_def)
  next
    case False
    from dist lits [of x] have "all_distinct (s_heap st1 x)" by (simp add: all_distinct_def)
    with False new(1) r2
    have "bit (m_combination st2) (clause_row (m_vars st1) (lits (s_heap st1 x)))"
      by (simp add: rows_kept_def)
    with vars lits [of x] show ?thesis by simp
  qed
  with r1 r2 show ?thesis unfolding rows_kept_def by simp
qed

lemma attempt_positioned:
  assumes "attempt st False xs st1" and "rows_kept st st1" and "positioned st"
  shows "positioned st1"
  using assms by (simp add: attempt_def rows_kept_def positioned_def)

lemma check_lut_filters_rows:
  assumes "check_lut_filters filt cfs st = Inr (b, st')"
    and "\<forall>cf \<in> set cfs. \<exists>v. cf \<in> set (m_clause_filters st v)"
    and "positioned st"
  shows "rows_kept st st'"
  using assms
proof (induction cfs arbitrary: st)
  case Nil
  then show ?case by (simp add: rows_kept_refl)
next
  case (Cons cf cfs)
  show ?case
  proof (cases "filt = (filt OR fst cf) \<and> \<not> was_used (s_heap st (snd cf))")
    case False
    with Cons.prems have "check_lut_filters filt cfs st = Inr (b, st')" by auto
    with Cons.IH Cons.prems(2,3) show ?thesis by simp
  next
    case go: True
    with Cons.prems(1) obtain b1 st1 where
      ex: "extract_lut_clause (snd cf) st = Inr (b1, st1)"
      by (auto split: sum.splits)
    have "\<exists>v. snd cf \<in> snd ` set (m_clause_filters st v)"
      using Cons.prems(2) by (metis image_eqI list.set_intros(1))
    from extract_lut_clause_attempt [OF ex _ this] go obtain xs
      where a1: "attempt st False xs st1" by blast
    note r1 = extract_lut_clause_rows_kept [OF ex Cons.prems(3)]
    show ?thesis
    proof (cases b1)
      case True
      with Cons.prems(1) go ex have "add_lut st1 = Inr st'"
        by (auto split: sum.splits)
      then have "rows_kept st1 st'" by (rule add_lut_rows_kept)
      with a1 r1 show ?thesis by (rule rows_kept_trans)
    next
      case False
      with Cons.prems(1) go ex
      have rest: "check_lut_filters filt cfs st1 = Inr (b, st')" by simp
      have "\<forall>cf \<in> set cfs. \<exists>v. cf \<in> set (m_clause_filters st1 v)"
        using Cons.prems(2) attempt_index [OF a1] by simp
      from Cons.IH [OF rest this attempt_positioned [OF a1 r1 Cons.prems(3)]]
      have "rows_kept st1 st'" .
      with a1 r1 show ?thesis by (rule rows_kept_trans)
    qed
  qed
qed

lemma check_lut_watches_rows:
  assumes "check_lut_watches idx l ws st = Inr (b, st')" and "positioned st"
  shows "rows_kept st st'"
  using assms
proof (induction ws arbitrary: st)
  case Nil
  then show ?case by (simp add: rows_kept_refl)
next
  case (Cons w ws)
  let ?go = "is_binary_clause w \<and> var (get_literal w) \<in> s_visited st
      \<and> idx (get_literal w) < idx l"
  show ?case
  proof (cases ?go)
    case False
    with Cons.prems have "check_lut_watches idx l ws st = Inr (b, st')" by auto
    with Cons.IH Cons.prems(2) show ?thesis by simp
  next
    case go: True
    with Cons.prems obtain b1 st1 where
      ex: "extract_lut_binary (neg l) (get_literal w) st = Inr (b1, st1)"
      by (auto split: sum.splits)
    note a1 = extract_lut_binary_attempt [OF ex]
    note r1 = extract_lut_binary_rows_kept [OF ex]
    show ?thesis
    proof (cases b1)
      case True
      with Cons.prems go ex have "add_lut st1 = Inr st'"
        by (auto split: sum.splits)
      then have "rows_kept st1 st'" by (rule add_lut_rows_kept)
      with a1 r1 show ?thesis by (rule rows_kept_trans)
    next
      case False
      with Cons.prems go ex
      have rest: "check_lut_watches idx l ws st1 = Inr (b, st')" by simp
      from Cons.IH [OF rest attempt_positioned [OF a1 r1 Cons.prems(2)]]
      have "rows_kept st1 st'" .
      with a1 r1 show ?thesis by (rule rows_kept_trans)
    qed
  qed
qed

lemma check_lut_literals_rows:
  assumes "check_lut_literals idx filt ls st = Inr (b, st')" and "positioned st"
  shows "rows_kept st st'"
  using assms
proof (induction ls arbitrary: st)
  case Nil
  then show ?case by (simp add: rows_kept_refl)
next
  case (Cons l ls)
  from Cons.prems obtain b1 st1 where
    s1: "check_lut_filters filt (m_clause_filters st (var l)) st = Inr (b1, st1)"
    by (auto split: sum.splits)
  have all: "\<forall>cf \<in> set (m_clause_filters st (var l)). \<exists>v. cf \<in> set (m_clause_filters st v)"
    by blast
  from check_lut_filters_attempt [OF s1 all] obtain xs1 where a1: "attempt st b1 xs1 st1"
    by blast
  note r1 = check_lut_filters_rows [OF s1 all Cons.prems(2)]
  show ?case
  proof (cases b1)
    case True
    with Cons.prems s1 have "st' = st1" by simp
    with r1 show ?thesis by simp
  next
    case f1: False
    with a1 have a1': "attempt st False xs1 st1" by simp
    note p1 = attempt_positioned [OF a1' r1 Cons.prems(2)]
    from Cons.prems s1 f1 obtain b2 st2 where
      s2: "check_lut_watches idx l (s_wlist st1 l) st1 = Inr (b2, st2)"
      by (auto split: sum.splits)
    from check_lut_watches_attempt [OF s2] obtain xs2 where x2: "attempt st1 b2 xs2 st2" by blast
    note q2 = check_lut_watches_rows [OF s2 p1]
    from attempt_trans [OF a1' x2] have a2: "attempt st b2 (xs1 @ xs2) st2" .
    from a1' r1 q2 have r2: "rows_kept st st2" by (rule rows_kept_trans)
    show ?thesis
    proof (cases b2)
      case True
      with Cons.prems s1 f1 s2 have "st' = st2" by simp
      with r2 show ?thesis by simp
    next
      case f2: False
      with a2 have a2': "attempt st False (xs1 @ xs2) st2" by simp
      note p2 = attempt_positioned [OF a2' r2 Cons.prems(2)]
      from Cons.prems s1 f1 s2 f2 obtain b3 st3 where
        s3: "check_lut_watches idx (neg l) (s_wlist st2 (neg l)) st2 = Inr (b3, st3)"
        by (auto split: sum.splits)
      from check_lut_watches_attempt [OF s3] obtain xs3 where x3: "attempt st2 b3 xs3 st3" by blast
      note q3 = check_lut_watches_rows [OF s3 p2]
      from attempt_trans [OF a2' x3] have a3: "attempt st b3 ((xs1 @ xs2) @ xs3) st3" .
      from a2' r2 q3 have r3: "rows_kept st st3" by (rule rows_kept_trans)
      show ?thesis
      proof (cases b3)
        case True
        with Cons.prems s1 f1 s2 f2 s3 have "st' = st3" by simp
        with r3 show ?thesis by simp
      next
        case f3: False
        with a3 have a3': "attempt st False ((xs1 @ xs2) @ xs3) st3" by simp
        note p3 = attempt_positioned [OF a3' r3 Cons.prems(2)]
        from Cons.prems s1 f1 s2 f2 s3 f3
        have rest: "check_lut_literals idx filt ls st3 = Inr (b, st')" by simp
        from Cons.IH [OF rest p3] have "rows_kept st3 st'" .
        with a3' r3 show ?thesis by (rule rows_kept_trans)
      qed
    qed
  qed
qed

lemma check_lut_seed_bits:
  assumes "i + length c \<le> 32"
  shows "bit (fst (check_lut_seed c i msk st)) q \<longleftrightarrow>
           bit msk q \<or> (i \<le> q \<and> q < i + length c \<and> sign (c ! (q - i)))"
  using assms
proof (induction c arbitrary: i msk st)
  case Nil
  then show ?case by auto
next
  case (Cons l ls)
  let ?m = "msk OR push_bit i (of_bool (sign l))"
  let ?st1 = "st\<lparr>m_vars := m_vars st @ [var l],
           m_var_position := (m_var_position st)(var l := i),
           s_visited := insert (var l) (s_visited st)\<rparr>"
  from Cons.prems have len: "i + 1 + length ls \<le> 32" by simp
  note IH = Cons.IH [OF len, of ?m ?st1]
  have b: "bit ?m q \<longleftrightarrow> bit msk q \<or> (q = i \<and> sign l)"
    using len by (cases "sign l") (auto simp add: bit_or_iff bit_one_shifted_32 simp del: push_bit_of_1)
  have "(i \<le> q \<and> q < i + length (l # ls) \<and> sign ((l # ls) ! (q - i)))
      \<longleftrightarrow> (q = i \<and> sign l) \<or> (i + 1 \<le> q \<and> q < i + 1 + length ls \<and> sign (ls ! (q - (i + 1))))"
  proof (cases "q = i")
    case True
    then show ?thesis by simp
  next
    case False
    then show ?thesis by (cases "i \<le> q") (auto simp add: nth_Cons')
  qed
  with IH b show ?case by auto
qed

lemma check_lut_seed_positions:
  assumes "i = length (m_vars st)"
    and "\<forall>v \<in> s_visited st. m_var_position st v < length (m_vars st)
            \<and> m_vars st ! m_var_position st v = v"
  shows "\<forall>v \<in> s_visited (snd (check_lut_seed c i msk st)).
           m_var_position (snd (check_lut_seed c i msk st)) v
             < length (m_vars (snd (check_lut_seed c i msk st)))
         \<and> m_vars (snd (check_lut_seed c i msk st))
             ! m_var_position (snd (check_lut_seed c i msk st)) v = v"
  using assms
proof (induction c arbitrary: i msk st)
  case Nil
  then show ?case by simp
next
  case (Cons l ls)
  let ?m = "msk OR push_bit i (of_bool (sign l))"
  let ?st1 = "st\<lparr>m_vars := m_vars st @ [var l],
           m_var_position := (m_var_position st)(var l := i),
           s_visited := insert (var l) (s_visited st)\<rparr>"
  have i1: "i + 1 = length (m_vars ?st1)" using Cons.prems(1) by simp
  have inv1: "\<forall>v \<in> s_visited ?st1. m_var_position ?st1 v < length (m_vars ?st1)
            \<and> m_vars ?st1 ! m_var_position ?st1 v = v"
    using Cons.prems by (auto simp add: nth_append)
  from Cons.IH [OF i1 inv1, of ?m] show ?case by simp
qed

lemma check_lut_rows:
  assumes "check_lut idx a st = Inr (b, st')"
  shows "bit (m_combination st') (sign_row (lits (s_heap st a))) \<and>
     (\<forall>x. was_used (s_heap st' x) \<and> \<not> was_used (s_heap st x) \<and> x \<noteq> a
            \<and> all_distinct (s_heap st x) \<longrightarrow>
          bit (m_combination st')
            (clause_row (map var (lits (s_heap st a))) (lits (s_heap st x))))"
proof -
  let ?c = "lits (s_heap st a)"
  let ?init = "st\<lparr>s_visited := {}, m_vars := []\<rparr>"
  obtain msk0 st0 where seed: "check_lut_seed ?c 0 0 ?init = (msk0, st0)"
    by (cases "check_lut_seed ?c 0 0 ?init") blast
  from check_lut_seed_state [of ?c 0 0 ?init] seed
  obtain f where st0: "st0 = st\<lparr>m_vars := map var ?c, m_var_position := f,
      s_visited := var ` set ?c\<rparr>"
    by auto
  let ?st1 = "st0\<lparr>m_clauses_to_remove := [a],
      m_clause := take (length ?c) (m_clause st0) @ replicate (length ?c - length (m_clause st0)) None,
      m_combination := 0, m_num_combinations := 0\<rparr>"
  from assms seed obtain st2 where
    sc: "set_combination msk0 ?st1 = Some st2"
    and lits: "check_lut_literals idx (get_clause_filter (s_heap st a)) ?c (mark_used a st2) = Inr (b, st')"
    and c32: "length ?c \<le> 32"
    by (auto simp add: check_lut_def Let_def split: if_splits option.splits)
  from set_combination_frame [OF sc] obtain c n
    where st2: "st2 = ?st1\<lparr>m_combination := c, m_num_combinations := n\<rparr>" by blast
  let ?s = "mark_used a st2"
  have s_fields: "s_visited ?s = s_visited st0" "m_vars ?s = m_vars st0"
    "m_var_position ?s = m_var_position st0" "m_combination ?s = m_combination st2"
    "m_vars ?s = map var ?c"
    "\<And>x. lits (s_heap ?s x) = lits (s_heap st x)"
    "\<And>x. was_used (s_heap ?s x) \<longleftrightarrow> was_used (s_heap st x) \<or> x = a"
    by (simp_all add: st2 st0 mark_used_def)
  have "\<forall>v \<in> s_visited st0. m_var_position st0 v < length (m_vars st0)
         \<and> m_vars st0 ! m_var_position st0 v = v"
    using check_lut_seed_positions [of 0 ?init ?c 0] seed by simp
  then have pos: "positioned ?s"
    unfolding positioned_def s_fields(1,2,3) using c32 by (auto simp add: st0)
  from check_lut_literals_rows [OF lits pos] have rk: "rows_kept ?s st'" .
  have "bit msk0 q \<longleftrightarrow> bit (sign_row ?c) q" for q
    using check_lut_seed_bits [of 0 ?c 0 ?init q] seed c32 by (simp add: bit_sign_row)
  then have "unat msk0 = sign_row ?c" by (rule unat_eq_row)
  with set_combination_mono [OF sc] have "bit (m_combination ?s) (sign_row ?c)"
    by (simp add: s_fields(4))
  with rk have seedrow: "bit (m_combination st') (sign_row ?c)" by (simp add: rows_kept_def)
  have "bit (m_combination st') (clause_row (map var ?c) (lits (s_heap st x)))"
    if "was_used (s_heap st' x)" "\<not> was_used (s_heap st x)" "x \<noteq> a"
      "all_distinct (s_heap st x)" for x
  proof -
    from that have "\<not> was_used (s_heap ?s x)" "all_distinct (s_heap ?s x)"
      using s_fields(6,7) by (simp_all add: all_distinct_def)
    with that(1) rk
    have "bit (m_combination st') (clause_row (m_vars ?s) (lits (s_heap ?s x)))"
      by (simp add: rows_kept_def)
    then show ?thesis by (simp only: s_fields(5,6))
  qed
  with seedrow show ?thesis by blast
qed

text \<open>
  C3, as amended.  After a successful attempt on a seed that was not marked used, the
  clauses appended to \<open>m_removed_clauses\<close> are those of \<open>m_clauses_to_remove\<close>: exactly the
  clauses the attempt marked used, each of them the seed or an indexed clause over the
  seed's variables with as many literals as the seed.  None of them is extra: the row of
  the seed (the signs of its literals in their order) is set in the combination word, and
  so is the row of every other scheduled clause (the signs of its literals in the order
  of the seed's variables), when the variables of that clause are pairwise distinct, as
  they are for every clause of an index that \<open>init_clause_filter\<close> built.  The watch lists
  are as before.  \<open>extract_lut(clause)\<close> schedules the clause it examines exactly when
  every variable of it is visited and it has as many literals as the candidate has
  variables, and \<open>extract_lut(literal, literal)\<close> schedules nothing.
\<close>

theorem check_lut_removal:
  assumes "check_lut idx a st = Inr (True, st')" and "\<not> was_used (s_heap st a)"
  shows "m_removed_clauses st' = m_removed_clauses st @ m_clauses_to_remove st'
       \<and> set (m_clauses_to_remove st')
           = {x. was_used (s_heap st' x) \<and> \<not> was_used (s_heap st x)}
       \<and> (\<forall>x \<in> set (m_clauses_to_remove st'). x = a \<or>
             (length (lits (s_heap st x)) = length (lits (s_heap st a)) \<and>
              var ` set (lits (s_heap st x)) \<subseteq> var ` set (lits (s_heap st a)) \<and>
              (\<exists>v. x \<in> snd ` set (m_clause_filters st v))))
       \<and> bit (m_combination st') (sign_row (lits (s_heap st a)))
       \<and> (\<forall>x \<in> set (m_clauses_to_remove st').
             x \<noteq> a \<and> (all_distinct (s_heap st x) \<or> index_distinct st) \<longrightarrow>
             bit (m_combination st')
               (clause_row (map var (lits (s_heap st a))) (lits (s_heap st x))))
       \<and> s_wlist st' = s_wlist st
       \<and> (\<forall>a2 s b s'. extract_lut_clause a2 s = Inr (b, s') \<longrightarrow>
             m_clauses_to_remove s' =
               (if (\<forall>l \<in> set (lits (s_heap s a2)). var l \<in> s_visited s)
                   \<and> length (lits (s_heap s a2)) = length (m_vars s)
                then m_clauses_to_remove s @ [a2] else m_clauses_to_remove s))
       \<and> (\<forall>l1 l2 s b s'. extract_lut_binary l1 l2 s = Inr (b, s') \<longrightarrow>
             m_clauses_to_remove s' = m_clauses_to_remove s)"
proof -
  from check_lut_summary [OF assms(1)] obtain xs where
    fr: "frame st st'" and ctr: "m_clauses_to_remove st' = a # xs"
    and xs: "\<forall>x \<in> set xs. \<not> was_used (s_heap st x) \<and> x \<noteq> a \<and>
            length (lits (s_heap st x)) = length (lits (s_heap st a)) \<and>
            var ` set (lits (s_heap st x)) \<subseteq> var ` set (lits (s_heap st a)) \<and>
            (\<exists>v. x \<in> snd ` set (m_clause_filters st v))"
    and used: "\<forall>x. was_used (s_heap st' x) \<longleftrightarrow> was_used (s_heap st x) \<or> x = a \<or> x \<in> set xs"
    and rem: "m_removed_clauses st' = m_removed_clauses st @ m_clauses_to_remove st'"
    by auto
  from check_lut_rows [OF assms(1)]
  have seedrow: "bit (m_combination st') (sign_row (lits (s_heap st a)))"
    and others: "\<And>x. was_used (s_heap st' x) \<Longrightarrow> \<not> was_used (s_heap st x) \<Longrightarrow> x \<noteq> a
        \<Longrightarrow> all_distinct (s_heap st x)
        \<Longrightarrow> bit (m_combination st')
              (clause_row (map var (lits (s_heap st a))) (lits (s_heap st x)))"
    by blast+
  have "set (m_clauses_to_remove st') = {x. was_used (s_heap st' x) \<and> \<not> was_used (s_heap st x)}"
    using ctr xs used assms(2) by auto
  moreover have "\<forall>x \<in> set (m_clauses_to_remove st'). x = a \<or>
             (length (lits (s_heap st x)) = length (lits (s_heap st a)) \<and>
              var ` set (lits (s_heap st x)) \<subseteq> var ` set (lits (s_heap st a)) \<and>
              (\<exists>v. x \<in> snd ` set (m_clause_filters st v)))"
    using ctr xs by simp
  moreover have "\<forall>x \<in> set (m_clauses_to_remove st').
             x \<noteq> a \<and> (all_distinct (s_heap st x) \<or> index_distinct st) \<longrightarrow>
             bit (m_combination st')
               (clause_row (map var (lits (s_heap st a))) (lits (s_heap st x)))"
  proof (intro ballI impI)
    fix x
    assume x: "x \<in> set (m_clauses_to_remove st')"
      and h: "x \<noteq> a \<and> (all_distinct (s_heap st x) \<or> index_distinct st)"
    from x h ctr have mem: "x \<in> set xs" by simp
    with xs obtain v where fresh: "\<not> was_used (s_heap st x)"
      and ind: "x \<in> snd ` set (m_clause_filters st v)" by blast
    from mem used have now: "was_used (s_heap st' x)" by simp
    from ind obtain cf where "cf \<in> set (m_clause_filters st v)" and "x = snd cf" by blast
    then have "index_distinct st \<Longrightarrow> all_distinct (s_heap st x)"
      by (simp add: index_distinct_def)
    with h have "all_distinct (s_heap st x)" by blast
    with now fresh h
    show "bit (m_combination st') (clause_row (map var (lits (s_heap st a))) (lits (s_heap st x)))"
      by (simp add: others)
  qed
  moreover have "s_wlist st' = s_wlist st" using fr by (simp add: frame_def)
  ultimately show ?thesis
    using rem seedrow extract_lut_clause_schedules extract_lut_binary_schedules by blast
qed

lemma sum_collapse_Inr: "\<not> isl r \<Longrightarrow> r = Inr (projr r)"
  by (cases r) simp_all

theorem check_lut_removal_witness:
  "\<exists>st'. check_lut lit_index 0 (init_clause_filter example_clauses) = Inr (True, st')
     \<and> m_clauses_to_remove st' = [0, 1, 2, 3]
     \<and> m_removed_clauses st'
         = m_removed_clauses (init_clause_filter example_clauses) @ m_clauses_to_remove st'
     \<and> set (m_clauses_to_remove st')
         = {x. was_used (s_heap st' x) \<and> \<not> was_used (s_heap (init_clause_filter example_clauses) x)}
     \<and> sign_row (lits (s_heap (init_clause_filter example_clauses) 0)) = 7
     \<and> bit (m_combination st') (sign_row (lits (s_heap (init_clause_filter example_clauses) 0)))
     \<and> clause_row (map var (lits (s_heap (init_clause_filter example_clauses) 0)))
          (lits (s_heap (init_clause_filter example_clauses) 1)) = 4
     \<and> bit (m_combination st')
          (clause_row (map var (lits (s_heap (init_clause_filter example_clauses) 0)))
             (lits (s_heap (init_clause_filter example_clauses) 1)))
     \<and> clause_row (map var (lits (s_heap (init_clause_filter example_clauses) 0)))
          (lits (s_heap (init_clause_filter example_clauses) 2)) = 5
     \<and> bit (m_combination st')
          (clause_row (map var (lits (s_heap (init_clause_filter example_clauses) 0)))
             (lits (s_heap (init_clause_filter example_clauses) 2)))
     \<and> clause_row (map var (lits (s_heap (init_clause_filter example_clauses) 0)))
          (lits (s_heap (init_clause_filter example_clauses) 3)) = 6
     \<and> bit (m_combination st')
          (clause_row (map var (lits (s_heap (init_clause_filter example_clauses) 0)))
             (lits (s_heap (init_clause_filter example_clauses) 3)))"
proof -
  let ?st = "init_clause_filter example_clauses"
  let ?r = "check_lut lit_index 0 ?st"
  let ?st' = "snd (projr ?r)"
  let ?row = "\<lambda>x. clause_row (map var (lits (s_heap ?st 0))) (lits (s_heap ?st x))"
  have "\<not> isl ?r \<and> fst (projr ?r) \<and> m_clauses_to_remove ?st' = [0, 1, 2, 3]"
    by code_simp
  then have run: "?r = Inr (True, ?st')"
    and ctr: "m_clauses_to_remove ?st' = [0, 1, 2, 3]"
    using sum_collapse_Inr [of ?r] by (metis prod.collapse, simp)
  have fresh: "\<not> was_used (s_heap ?st 0)" by code_simp
  have d1: "all_distinct (s_heap ?st 1)" by code_simp
  have d2: "all_distinct (s_heap ?st 2)" by code_simp
  have d3: "all_distinct (s_heap ?st 3)" by code_simp
  have v0: "sign_row (lits (s_heap ?st 0)) = 7" by code_simp
  have v1: "?row 1 = 4" by code_simp
  have v2: "?row 2 = 5" by code_simp
  have v3: "?row 3 = 6" by code_simp
  note res = check_lut_removal [OF run fresh]
  from res have rem: "m_removed_clauses ?st' = m_removed_clauses ?st @ m_clauses_to_remove ?st'"
    by (elim conjE)
  from res have eq: "set (m_clauses_to_remove ?st')
         = {x. was_used (s_heap ?st' x) \<and> \<not> was_used (s_heap ?st x)}"
    by (elim conjE)
  from res have seed: "bit (m_combination ?st') (sign_row (lits (s_heap ?st 0)))"
    by (elim conjE)
  from res have all: "\<forall>x \<in> set (m_clauses_to_remove ?st').
             x \<noteq> 0 \<and> (all_distinct (s_heap ?st x) \<or> index_distinct ?st) \<longrightarrow>
             bit (m_combination ?st') (?row x)"
    by (elim conjE)
  from all ctr d1 have r1: "bit (m_combination ?st') (?row 1)" by simp
  from all ctr d2 have r2: "bit (m_combination ?st') (?row 2)" by simp
  from all ctr d3 have r3: "bit (m_combination ?st') (?row 3)" by simp
  from run ctr rem eq v0 seed v1 r1 v2 r2 v3 r3 show ?thesis by blast
qed

text \<open>
  The claim as stated asks that everything that contributed rows be scheduled.  On the
  example solver the attempt on clause 0 succeeds with rows 4 to 7 witnessed and only
  clause 0 scheduled; without the two binary implications the same attempt witnesses row
  7 alone and fails: rows 4, 5 and 6 came from the implications, which are not scheduled.
\<close>

theorem check_lut_removal_counterexample:
  "(case check_lut lit_index 0 (init_clause_filter example_solver) of
      Inl e \<Rightarrow> False
    | Inr (b, st') \<Rightarrow> b \<and> m_combination st' = 0xF0 \<and> m_clauses_to_remove st' = [0]
        \<and> m_removed_clauses st' = [0] \<and> on_lut st' = [(0, [0, 1], 2)])
   \<and> (case check_lut lit_index 0 (init_clause_filter (example_solver\<lparr>s_wlist := (\<lambda>l. [])\<rparr>)) of
      Inl e \<Rightarrow> False
    | Inr (b, st') \<Rightarrow> \<not> b \<and> m_combination st' = 0x80 \<and> m_clauses_to_remove st' = [0]
        \<and> m_removed_clauses st' = [] \<and> on_lut st' = [])"
  by code_simp

section \<open>The pass: properties\<close>

lemma operator_clauses_split:
  "operator_clauses idx sz (pre @ cs) st =
     (case operator_clauses idx sz pre st of
        Inl e \<Rightarrow> Inl e
      | Inr st2 \<Rightarrow> operator_clauses idx sz cs st2)"
  by (induction pre arbitrary: st) (auto simp add: Let_def split: sum.splits)

lemma operator_sizes_split:
  assumes "lo \<le> sz" and "sz \<le> m"
  shows "operator_sizes idx lo m cl st =
     (case operator_sizes idx sz m cl st of
        Inl e \<Rightarrow> Inl e
      | Inr st1 \<Rightarrow> operator_sizes idx lo sz cl st1)"
  using assms
proof (induction "m - sz" arbitrary: m st)
  case 0
  then have "m = sz" by simp
  then show ?case by (simp add: operator_sizes.simps [of idx sz sz])
next
  case (Suc d)
  then have m: "sz < m" "lo < m" "d = (m - 1) - sz" "sz \<le> m - 1" by simp_all
  show ?case
  proof (cases "operator_clauses idx m cl st")
    case (Inl e)
    with m show ?thesis
      by (simp add: operator_sizes.simps [of idx lo m] operator_sizes.simps [of idx sz m])
  next
    case (Inr st1)
    with m Suc.hyps(1) [OF m(3) Suc.prems(1) m(4), of st1] show ?thesis
      by (simp add: operator_sizes.simps [of idx lo m] operator_sizes.simps [of idx sz m])
  qed
qed

lemma check_lut_removed_used:
  assumes "check_lut idx a st = Inr (b, st')" and "removed_used st"
  shows "removed_used st'"
  using check_lut_summary [OF assms(1)] assms(2)
  by (cases b) (auto simp add: removed_used_def)

lemma check_lut_kept_used:
  assumes "check_lut idx a st = Inr (b, st')" and "kept_used c st" and "\<not> was_used (s_heap st a)"
  shows "kept_used c st'"
  using check_lut_summary [OF assms(1)] assms(2,3)
  by (cases b) (auto simp add: kept_used_def)

lemma operator_clauses_invariants:
  assumes "operator_clauses idx sz cs st = Inr st'"
  shows "(removed_used st \<longrightarrow> removed_used st') \<and> (kept_used c st \<longrightarrow> kept_used c st')"
  using assms
proof (induction cs arbitrary: st)
  case Nil
  then show ?case by simp
next
  case (Cons cp cs)
  let ?c = "s_heap st cp"
  show ?case
  proof (cases "length (lits ?c) = sz \<and> \<not> was_removed ?c \<and> \<not> is_learned ?c \<and> \<not> was_used ?c")
    case False
    with Cons.prems have "operator_clauses idx sz cs st = Inr st'" by (auto simp add: Let_def)
    with Cons.IH show ?thesis by simp
  next
    case True
    with Cons.prems obtain b st1 where
      chk: "check_lut idx cp st = Inr (b, st1)" and rest: "operator_clauses idx sz cs st1 = Inr st'"
      by (auto simp add: Let_def split: sum.splits)
    from True have nu: "\<not> was_used (s_heap st cp)" by simp
    show ?thesis
      using Cons.IH [OF rest] check_lut_removed_used [OF chk] check_lut_kept_used [OF chk _ nu]
      by blast
  qed
qed

lemma operator_sizes_invariants:
  assumes "operator_sizes idx lo m cl st = Inr st'"
  shows "(removed_used st \<longrightarrow> removed_used st') \<and> (kept_used c st \<longrightarrow> kept_used c st')"
  using assms
proof (induction m arbitrary: st)
  case 0
  then show ?case by (simp add: operator_sizes.simps [of idx lo 0])
next
  case (Suc m)
  show ?case
  proof (cases "lo < Suc m")
    case False
    with Suc.prems show ?thesis by (simp add: operator_sizes.simps [of idx lo "Suc m"])
  next
    case True
    with Suc.prems obtain st1 where
      a: "operator_clauses idx (Suc m) cl st = Inr st1" and b: "operator_sizes idx lo m cl st1 = Inr st'"
      by (auto simp add: operator_sizes.simps [of idx lo "Suc m"] split: sum.splits)
    from operator_clauses_invariants [OF a, of c] Suc.IH [OF b] show ?thesis by blast
  qed
qed

lemma unmark_used_all_eq:
  "unmark_used_all cs st =
     st\<lparr>s_heap := (\<lambda>x. if x \<in> set cs then (s_heap st x)\<lparr>was_used := False\<rparr> else s_heap st x)\<rparr>"
proof (induction cs arbitrary: st)
  case Nil
  show ?case by simp
next
  case (Cons c cs)
  have "(\<lambda>x. if x \<in> set cs then (s_heap (unmark_used c st) x)\<lparr>was_used := False\<rparr>
              else s_heap (unmark_used c st) x)
      = (\<lambda>x. if x \<in> set (c # cs) then (s_heap st x)\<lparr>was_used := False\<rparr> else s_heap st x)"
    by (auto simp add: unmark_used_def fun_eq_iff)
  then show ?case by (simp add: Cons.IH) (simp add: unmark_used_def)
qed

lemma mark_used_all_eq:
  "mark_used_all cs st =
     st\<lparr>s_heap := (\<lambda>x. if x \<in> set cs then (s_heap st x)\<lparr>was_used := True\<rparr> else s_heap st x)\<rparr>"
proof (induction cs arbitrary: st)
  case Nil
  show ?case by simp
next
  case (Cons c cs)
  have "(\<lambda>x. if x \<in> set cs then (s_heap (mark_used c st) x)\<lparr>was_used := True\<rparr>
              else s_heap (mark_used c st) x)
      = (\<lambda>x. if x \<in> set (c # cs) then (s_heap st x)\<lparr>was_used := True\<rparr> else s_heap st x)"
    by (auto simp add: mark_used_def fun_eq_iff)
  then show ?case by (simp add: Cons.IH) (simp add: mark_used_def)
qed

lemma init_mask_state:
  assumes "init_mask i st = Some st'"
  shows "\<exists>f. st' = st\<lparr>m_masks := f\<rparr>"
  using assms by (auto simp add: init_mask_def split: if_splits option.splits)

lemma init_masks_state:
  assumes "init_masks i st = Some st'"
  shows "\<exists>f. st' = st\<lparr>m_masks := f\<rparr>"
  using assms
proof (induction "7 - i" arbitrary: i st)
  case 0
  then have "st' = st" by (simp add: init_masks.simps [of i])
  then have "st' = st\<lparr>m_masks := m_masks st\<rparr>" by simp
  then show ?case by blast
next
  case (Suc d)
  then have i: "i \<le> 6" "d = 7 - (i + 1)" by simp_all
  with Suc.prems obtain st1 where a: "init_mask i st = Some st1"
    and b: "init_masks (i + 1) st1 = Some st'"
    by (auto simp add: init_masks.simps [of i] split: option.splits)
  from init_mask_state [OF a] obtain f1 where "st1 = st\<lparr>m_masks := f1\<rparr>" by blast
  moreover from Suc.hyps(1) [OF i(2) b] obtain f where "st' = st1\<lparr>m_masks := f\<rparr>" by blast
  ultimately have "st' = st\<lparr>m_masks := f\<rparr>" by simp
  then show ?case by blast
qed

lemma init_clause_filter_clauses_state:
  "\<exists>g. init_clause_filter_clauses cps st = st\<lparr>m_clause_filters := g\<rparr>"
proof (induction cps arbitrary: st)
  case Nil
  have "st = st\<lparr>m_clause_filters := m_clause_filters st\<rparr>" by simp
  then show ?case by (metis init_clause_filter_clauses.simps(1))
next
  case (Cons cp cps)
  let ?st1 = "let c = s_heap st cp in
        if length (lits c) \<le> m_max_lut_size st \<and> all_distinct c
        then st\<lparr>m_clause_filters :=
                  init_clause_filter_push (get_clause_filter c, cp) (lits c) (m_clause_filters st)\<rparr>
        else st"
  obtain g1 where g1: "?st1 = st\<lparr>m_clause_filters := g1\<rparr>"
  proof (cases "length (lits (s_heap st cp)) \<le> m_max_lut_size st \<and> all_distinct (s_heap st cp)")
    case True
    then show ?thesis using that by (simp add: Let_def)
  next
    case False
    then have "?st1 = st\<lparr>m_clause_filters := m_clause_filters st\<rparr>" by (auto simp add: Let_def)
    then show ?thesis using that by blast
  qed
  from Cons [of ?st1] obtain g where "init_clause_filter_clauses cps ?st1 = ?st1\<lparr>m_clause_filters := g\<rparr>"
    by blast
  then have "init_clause_filter_clauses (cp # cps) st = st\<lparr>m_clause_filters := g\<rparr>"
    by (simp add: g1)
  then show ?case by blast
qed

lemma init_clause_filter_state:
  "\<exists>g. init_clause_filter st = st\<lparr>m_clause_filters := g\<rparr>"
proof -
  obtain g1 where g1: "init_clause_filter_clauses (s_m_clauses st) (st\<lparr>m_clause_filters := (\<lambda>v. [])\<rparr>)
      = st\<lparr>m_clause_filters := g1\<rparr>"
    using init_clause_filter_clauses_state [of "s_m_clauses st" "st\<lparr>m_clause_filters := (\<lambda>v. [])\<rparr>"]
    by auto
  obtain g where "init_clause_filter_clauses (s_m_learned st) (st\<lparr>m_clause_filters := g1\<rparr>)
      = st\<lparr>m_clause_filters := g\<rparr>"
    using init_clause_filter_clauses_state [of "s_m_learned st" "st\<lparr>m_clause_filters := g1\<rparr>"]
    by auto
  then show ?thesis using g1 by (auto simp add: init_clause_filter_def)
qed

text \<open>
  C4.  Take a run of \<open>operator()\<close> and cut it at the attempt on a seed \<open>c\<close>: \<open>st0\<close> after
  the initialisation, \<open>st1\<close> after the sizes above \<open>sz\<close>, \<open>st2\<close> after the clauses before
  \<open>c\<close> at size \<open>sz\<close>, where \<open>c\<close> is eligible, and \<open>st3\<close> after \<open>check_lut(c)\<close>, which
  found nothing.  Then the attempt made no callback and queued nothing, \<open>c\<close> is still
  marked used right after it, and at the end of the pass \<open>c\<close> is in the filtered clause
  vector, not marked used and not among the removed clauses.
\<close>

theorem exhausted_seed_survives:
  assumes run: "operator_call idx clauses st = Inr (clauses', st')"
    and init: "init_masks 0 (init_clause_filter (st\<lparr>m_removed_clauses := []\<rparr>)) = Some st0"
    and sz: "2 < sz" "sz \<le> m_max_lut_size st"
    and above: "operator_sizes idx sz (m_max_lut_size st) clauses (unmark_used_all clauses st0) = Inr st1"
    and cl: "clauses = pre @ c # post"
    and before: "operator_clauses idx sz pre st1 = Inr st2"
    and elig: "length (lits (s_heap st2 c)) = sz \<and> \<not> was_removed (s_heap st2 c)
               \<and> \<not> is_learned (s_heap st2 c) \<and> \<not> was_used (s_heap st2 c)"
    and exhausted: "check_lut idx c st2 = Inr (False, st3)"
  shows "on_lut st3 = on_lut st2 \<and> m_removed_clauses st3 = m_removed_clauses st2
       \<and> was_used (s_heap st3 c)
       \<and> c \<in> set clauses' \<and> \<not> was_used (s_heap st' c) \<and> c \<notin> set (m_removed_clauses st')"
proof -
  let ?m = "m_max_lut_size st"
  let ?u = "unmark_used_all clauses st0"
  from run init obtain st_end where
    sizes: "operator_sizes idx 2 ?m clauses ?u = Inr st_end"
    and fin: "st' = mark_used_all
                (m_removed_clauses (unmark_used_all clauses (st_end\<lparr>m_clause_filters := (\<lambda>v. [])\<rparr>)))
                (unmark_used_all clauses (st_end\<lparr>m_clause_filters := (\<lambda>v. [])\<rparr>))"
    and cls: "clauses' = filter (\<lambda>cp. \<not> was_used (s_heap st' cp)) clauses"
    by (auto simp add: operator_call_def Let_def split: if_splits option.splits sum.splits)
  \<comment> \<open>the run passes through the given states\<close>
  from sizes above operator_sizes_split [of 2 sz ?m idx clauses ?u] sz
  have low: "operator_sizes idx 2 sz clauses st1 = Inr st_end" by simp
  with sz obtain st4 where
    row: "operator_clauses idx sz clauses st1 = Inr st4"
    and rest: "operator_sizes idx 2 (sz - 1) clauses st4 = Inr st_end"
    by (auto simp add: operator_sizes.simps [of idx 2 sz] split: sum.splits)
  from row cl before operator_clauses_split [of idx sz pre "c # post" st1]
  have "operator_clauses idx sz (c # post) st2 = Inr st4" by simp
  with elig exhausted have post: "operator_clauses idx sz post st3 = Inr st4"
    by (simp add: Let_def)
  \<comment> \<open>every clause queued for removal is marked used, up to the attempt\<close>
  obtain f g where st0: "st0 = st\<lparr>m_removed_clauses := [], m_clause_filters := g, m_masks := f\<rparr>"
    using init_masks_state [OF init] init_clause_filter_state [of "st\<lparr>m_removed_clauses := []\<rparr>"]
    by auto
  have "m_removed_clauses ?u = []"
    by (simp add: unmark_used_all_eq st0)
  then have "removed_used ?u" by (simp add: removed_used_def)
  with operator_sizes_invariants [OF above] have "removed_used st1" by blast
  with operator_clauses_invariants [OF before] have "removed_used st2" by blast
  with elig have notin: "c \<notin> set (m_removed_clauses st2)" by (auto simp add: removed_used_def)
  \<comment> \<open>the attempt\<close>
  from check_lut_summary [OF exhausted]
  have att: "on_lut st3 = on_lut st2" "m_removed_clauses st3 = m_removed_clauses st2"
    "was_used (s_heap st3 c)"
    by auto
  with notin have "kept_used c st3" by (simp add: kept_used_def)
  with operator_clauses_invariants [OF post] have "kept_used c st4" by blast
  with operator_sizes_invariants [OF rest] have "kept_used c st_end" by blast
  then have out: "c \<notin> set (m_removed_clauses st_end)" by (simp add: kept_used_def)
  have "c \<in> set clauses" using cl by simp
  with out have "\<not> was_used (s_heap st' c)"
    by (simp add: fin mark_used_all_eq unmark_used_all_eq)
  moreover have "m_removed_clauses st' = m_removed_clauses st_end"
    by (simp add: fin mark_used_all_eq unmark_used_all_eq)
  ultimately show ?thesis
    using att out cls \<open>c \<in> set clauses\<close> by simp
qed

theorem exhausted_seed_survives_witness:
  "\<not> isl (operator_call lit_index [0, 1] example_solver)
   \<and> 1 \<in> set (fst (projr (operator_call lit_index [0, 1] example_solver)))
   \<and> \<not> was_used (s_heap (snd (projr (operator_call lit_index [0, 1] example_solver))) 1)"
proof -
  let ?run = "operator_call lit_index [0, 1] example_solver"
  let ?i = "init_masks 0 (init_clause_filter (example_solver\<lparr>m_removed_clauses := []\<rparr>))"
  let ?st0 = "the ?i"
  let ?a = "operator_sizes lit_index 4 (m_max_lut_size example_solver) [0, 1]
              (unmark_used_all [0, 1] ?st0)"
  let ?st1 = "projr ?a"
  let ?b = "operator_clauses lit_index 4 [0] ?st1"
  let ?st2 = "projr ?b"
  let ?c = "check_lut lit_index 1 ?st2"
  let ?st3 = "snd (projr ?c)"
  have "\<not> isl ?run" by code_simp
  then have run: "?run = Inr (fst (projr ?run), snd (projr ?run))"
    using sum_collapse_Inr [of ?run] by simp
  have "?i \<noteq> None" by code_simp
  then have init: "?i = Some ?st0" by simp
  have sz: "(2::nat) < 4" "4 \<le> m_max_lut_size example_solver" by code_simp+
  have "\<not> isl ?a" by code_simp
  then have above: "?a = Inr ?st1" by (rule sum_collapse_Inr)
  have cl: "[0, 1] = [0] @ 1 # ([] :: nat list)" by simp
  have "\<not> isl ?b" by code_simp
  then have before: "?b = Inr ?st2" by (rule sum_collapse_Inr)
  have elig: "length (lits (s_heap ?st2 1)) = 4 \<and> \<not> was_removed (s_heap ?st2 1)
               \<and> \<not> is_learned (s_heap ?st2 1) \<and> \<not> was_used (s_heap ?st2 1)"
    by code_simp
  have "\<not> isl ?c \<and> \<not> fst (projr ?c)" by code_simp
  then have exhausted: "?c = Inr (False, ?st3)"
    using sum_collapse_Inr [of ?c] by (metis prod.collapse)
  from exhausted_seed_survives [OF run init sz above cl before elig exhausted]
    \<open>\<not> isl ?run\<close>
  show ?thesis by blast
qed

lemma extract_lut_clause_size:
  assumes "all_distinct (s_heap st a2)" and "s_visited st \<subseteq> set (m_vars st)"
  shows "extract_lut_clause a2 st \<noteq> Inl (Assertion 144)"
proof
  assume fail: "extract_lut_clause a2 st = Inl (Assertion 144)"
  let ?c2 = "lits (s_heap st a2)"
  from fail have vis: "\<forall>l \<in> set ?c2. var l \<in> s_visited st"
    by (auto simp add: extract_lut_clause_def Let_def split: if_splits)
  with fail have long: "\<not> length ?c2 \<le> length (m_vars st)"
    by (auto simp add: extract_lut_clause_def Let_def split: if_splits option.splits prod.splits)
  from vis assms(2) have "set (map var ?c2) \<subseteq> set (m_vars st)" by auto
  then have "card (set (map var ?c2)) \<le> card (set (m_vars st))"
    by (intro card_mono) simp_all
  moreover have "card (set (map var ?c2)) = length ?c2"
    using assms(1) distinct_card [of "map var ?c2"] by (simp add: all_distinct_def)
  moreover have "card (set (m_vars st)) \<le> length (m_vars st)" by (rule card_length)
  ultimately show False using long by simp
qed

lemma add_lut_no_size_failure: "add_lut st \<noteq> Inl (Assertion 144)"
  by (auto simp add: add_lut_def Let_def split: option.splits)

lemma extract_lut_binary_no_size_failure: "extract_lut_binary l1 l2 st \<noteq> Inl (Assertion 144)"
  by (auto simp add: extract_lut_binary_def split: option.splits prod.splits)

lemma frame_index_distinct:
  assumes "frame st st'" and "index_distinct st"
  shows "index_distinct st'"
  using assms by (simp add: frame_def index_distinct_def all_distinct_def)

lemma attempt_keeps_candidate:
  assumes "attempt st False xs st'" and "index_distinct st" and "s_visited st \<subseteq> set (m_vars st)"
  shows "index_distinct st' \<and> s_visited st' \<subseteq> set (m_vars st')"
  using assms frame_index_distinct [of st st'] by (simp add: attempt_def)

lemma check_lut_filters_no_size_failure:
  assumes "\<forall>cf \<in> set cfs. \<exists>v. cf \<in> set (m_clause_filters st v)"
    and "index_distinct st" and "s_visited st \<subseteq> set (m_vars st)"
  shows "check_lut_filters filt cfs st \<noteq> Inl (Assertion 144)"
  using assms
proof (induction cfs arbitrary: st)
  case Nil
  then show ?case by simp
next
  case (Cons cf cfs)
  have tail: "\<forall>cf \<in> set cfs. \<exists>v. cf \<in> set (m_clause_filters st v)"
    using Cons.prems(1) by simp
  show ?case
  proof (cases "filt = (filt OR fst cf) \<and> \<not> was_used (s_heap st (snd cf))")
    case False
    with Cons.IH [OF tail Cons.prems(2,3)] show ?thesis by auto
  next
    case True
    obtain v where v: "cf \<in> set (m_clause_filters st v)" using Cons.prems(1) by auto
    then have dist: "all_distinct (s_heap st (snd cf))"
      using Cons.prems(2) by (auto simp add: index_distinct_def)
    have indexed: "\<exists>v. snd cf \<in> snd ` set (m_clause_filters st v)" using v by blast
    note no = extract_lut_clause_size [OF dist Cons.prems(3)]
    show ?thesis
    proof (cases "extract_lut_clause (snd cf) st")
      case (Inl e)
      with no True show ?thesis by auto
    next
      case (Inr r)
      obtain b1 st1 where r: "r = (b1, st1)" by (cases r)
      from extract_lut_clause_attempt [OF Inr [unfolded r] _ indexed] True
      obtain xs where att: "attempt st False xs st1" by blast
      show ?thesis
      proof (cases b1)
        case True
        with \<open>filt = (filt OR fst cf) \<and> \<not> was_used (s_heap st (snd cf))\<close> Inr r
          add_lut_no_size_failure [of st1]
        show ?thesis by (auto split: sum.splits)
      next
        case False
        have "\<forall>cf \<in> set cfs. \<exists>v. cf \<in> set (m_clause_filters st1 v)"
          using tail attempt_index [OF att] by simp
        from Cons.IH [OF this] attempt_keeps_candidate [OF att Cons.prems(2,3)]
        have "check_lut_filters filt cfs st1 \<noteq> Inl (Assertion 144)" by blast
        with False \<open>filt = (filt OR fst cf) \<and> \<not> was_used (s_heap st (snd cf))\<close> Inr r
        show ?thesis by simp
      qed
    qed
  qed
qed

lemma check_lut_watches_no_size_failure:
  "check_lut_watches idx l ws st \<noteq> Inl (Assertion 144)"
proof (induction ws arbitrary: st)
  case Nil
  show ?case by simp
next
  case (Cons w ws)
  show ?case
    using Cons.IH extract_lut_binary_no_size_failure [of "neg l" "get_literal w" st]
      add_lut_no_size_failure
    by (auto split: sum.splits bool.splits)
qed

lemma check_lut_literals_no_size_failure:
  assumes "index_distinct st" and "s_visited st \<subseteq> set (m_vars st)"
  shows "check_lut_literals idx filt ls st \<noteq> Inl (Assertion 144)"
  using assms
proof (induction ls arbitrary: st)
  case Nil
  show ?case by simp
next
  case (Cons l ls)
  have all: "\<forall>cf \<in> set (m_clause_filters st (var l)). \<exists>v. cf \<in> set (m_clause_filters st v)"
    by blast
  note n1 = check_lut_filters_no_size_failure [OF all Cons.prems, of filt]
  show ?case
  proof (cases "check_lut_filters filt (m_clause_filters st (var l)) st")
    case (Inl e)
    with n1 show ?thesis by auto
  next
    case (Inr r1)
    obtain b1 st1 where r1: "r1 = (b1, st1)" by (cases r1)
    from check_lut_filters_attempt [OF Inr [unfolded r1] all] obtain xs1
      where a1: "attempt st b1 xs1 st1" by blast
    show ?thesis
    proof (cases b1)
      case True
      with Inr r1 show ?thesis by simp
    next
      case f1: False
      with a1 attempt_keeps_candidate [of st xs1 st1] Cons.prems
      have k1: "index_distinct st1" "s_visited st1 \<subseteq> set (m_vars st1)" by simp_all
      show ?thesis
      proof (cases "check_lut_watches idx l (s_wlist st1 l) st1")
        case (Inl e)
        with check_lut_watches_no_size_failure [of idx l "s_wlist st1 l" st1] Inr r1 f1
        show ?thesis by auto
      next
        case r2: (Inr r2)
        obtain b2 st2 where r2': "r2 = (b2, st2)" by (cases r2)
        from check_lut_watches_attempt [OF r2 [unfolded r2']] obtain xs2
          where a2: "attempt st1 b2 xs2 st2" by blast
        show ?thesis
        proof (cases b2)
          case True
          with Inr r1 f1 r2 r2' show ?thesis by simp
        next
          case f2: False
          with a2 attempt_keeps_candidate [of st1 xs2 st2] k1
          have k2: "index_distinct st2" "s_visited st2 \<subseteq> set (m_vars st2)" by simp_all
          show ?thesis
          proof (cases "check_lut_watches idx (neg l) (s_wlist st2 (neg l)) st2")
            case (Inl e)
            with check_lut_watches_no_size_failure [of idx "neg l" "s_wlist st2 (neg l)" st2]
              Inr r1 f1 r2 r2' f2
            show ?thesis by auto
          next
            case r3: (Inr r3)
            obtain b3 st3 where r3': "r3 = (b3, st3)" by (cases r3)
            from check_lut_watches_attempt [OF r3 [unfolded r3']] obtain xs3
              where a3: "attempt st2 b3 xs3 st3" by blast
            show ?thesis
            proof (cases b3)
              case True
              with Inr r1 f1 r2 r2' f2 r3 r3' show ?thesis by simp
            next
              case f3: False
              with a3 attempt_keeps_candidate [of st2 xs3 st3] k2
              have "index_distinct st3" "s_visited st3 \<subseteq> set (m_vars st3)" by simp_all
              from Cons.IH [OF this] Inr r1 f1 r2 r2' f2 r3 r3' f3
              show ?thesis by simp
            qed
          qed
        qed
      qed
    qed
  qed
qed

lemma check_lut_no_size_failure:
  assumes "index_distinct st"
  shows "check_lut idx a st \<noteq> Inl (Assertion 144)"
proof
  assume fail: "check_lut idx a st = Inl (Assertion 144)"
  let ?c = "lits (s_heap st a)"
  obtain msk0 st0 where seed: "check_lut_seed ?c 0 0 (st\<lparr>s_visited := {}, m_vars := []\<rparr>) = (msk0, st0)"
    by (cases "check_lut_seed ?c 0 0 (st\<lparr>s_visited := {}, m_vars := []\<rparr>)") blast
  from check_lut_seed_state [of ?c 0 0 "st\<lparr>s_visited := {}, m_vars := []\<rparr>"] seed
  obtain f where st0: "st0 = st\<lparr>m_vars := map var ?c, m_var_position := f,
      s_visited := var ` set ?c\<rparr>"
    by auto
  let ?st1 = "st0\<lparr>m_clauses_to_remove := [a],
      m_clause := take (length ?c) (m_clause st0) @ replicate (length ?c - length (m_clause st0)) None,
      m_combination := 0, m_num_combinations := 0\<rparr>"
  from fail seed obtain st2 where
    sc: "set_combination msk0 ?st1 = Some st2"
    and lits: "check_lut_literals idx (get_clause_filter (s_heap st a)) ?c (mark_used a st2)
                 = Inl (Assertion 144)"
    by (auto simp add: check_lut_def Let_def split: if_splits option.splits)
  from set_combination_frame [OF sc] obtain c n
    where st2: "st2 = ?st1\<lparr>m_combination := c, m_num_combinations := n\<rparr>" by blast
  let ?s = "mark_used a st2"
  have "frame st ?s" by (simp add: st2 st0 frame_def mark_used_def)
  then have "index_distinct ?s" using assms by (rule frame_index_distinct)
  moreover have "s_visited ?s \<subseteq> set (m_vars ?s)" by (simp add: st2 st0 mark_used_def)
  ultimately show False
    using check_lut_literals_no_size_failure [of ?s idx "get_clause_filter (s_heap st a)" ?c] lits
    by simp
qed

lemma operator_clauses_no_size_failure:
  assumes "index_distinct st"
  shows "operator_clauses idx sz cs st \<noteq> Inl (Assertion 144)
       \<and> (\<forall>st'. operator_clauses idx sz cs st = Inr st' \<longrightarrow> index_distinct st')"
  using assms
proof (induction cs arbitrary: st)
  case Nil
  then show ?case by simp
next
  case (Cons cp cs)
  let ?c = "s_heap st cp"
  show ?case
  proof (cases "length (lits ?c) = sz \<and> \<not> was_removed ?c \<and> \<not> is_learned ?c \<and> \<not> was_used ?c")
    case False
    with Cons.IH [OF Cons.prems] show ?thesis by (auto simp add: Let_def)
  next
    case True
    show ?thesis
    proof (cases "check_lut idx cp st")
      case (Inl e)
      with check_lut_no_size_failure [OF Cons.prems, of idx cp] True
      show ?thesis by (auto simp add: Let_def)
    next
      case (Inr r)
      obtain b st1 where r: "r = (b, st1)" by (cases r)
      from check_lut_summary [OF Inr [unfolded r]] have "frame st st1" by blast
      then have "index_distinct st1" using Cons.prems by (rule frame_index_distinct)
      from Cons.IH [OF this] True Inr r show ?thesis by (simp add: Let_def)
    qed
  qed
qed

lemma operator_sizes_no_size_failure:
  assumes "index_distinct st"
  shows "operator_sizes idx lo m cl st \<noteq> Inl (Assertion 144)"
  using assms
proof (induction m arbitrary: st)
  case 0
  then show ?case by (simp add: operator_sizes.simps [of idx lo 0])
next
  case (Suc m)
  show ?case
  proof (cases "lo < Suc m")
    case False
    then show ?thesis by (simp add: operator_sizes.simps [of idx lo "Suc m"])
  next
    case True
    note step = operator_clauses_no_size_failure [OF Suc.prems, of idx "Suc m" cl]
    show ?thesis
    proof (cases "operator_clauses idx (Suc m) cl st")
      case (Inl e)
      with step True show ?thesis by (auto simp add: operator_sizes.simps [of idx lo "Suc m"])
    next
      case (Inr st1)
      with step have "index_distinct st1" by blast
      from Suc.IH [OF this] True Inr show ?thesis
        by (simp add: operator_sizes.simps [of idx lo "Suc m"])
    qed
  qed
qed

lemma init_clause_filter_push_set:
  "set (init_clause_filter_push cf ls fs v) \<subseteq> insert cf (set (fs v))"
proof (induction ls arbitrary: fs)
  case Nil
  show ?case by auto
next
  case (Cons l ls)
  let ?fs = "fs(var l := fs (var l) @ [cf])"
  have a: "set (?fs v) \<subseteq> insert cf (set (fs v))" by auto
  have b: "set (init_clause_filter_push cf ls ?fs v) \<subseteq> insert cf (set (?fs v))"
    by (rule Cons)
  have "set (init_clause_filter_push cf ls ?fs v) \<subseteq> insert cf (set (fs v))"
    using a b by blast
  then show ?case by (simp only: init_clause_filter_push.simps)
qed

lemma init_clause_filter_clauses_index:
  assumes "index_distinct st"
  shows "index_distinct (init_clause_filter_clauses cps st)"
  using assms
proof (induction cps arbitrary: st)
  case Nil
  then show ?case by simp
next
  case (Cons cp cps)
  let ?c = "s_heap st cp"
  show ?case
  proof (cases "length (lits ?c) \<le> m_max_lut_size st \<and> all_distinct ?c")
    case False
    then have "init_clause_filter_clauses (cp # cps) st = init_clause_filter_clauses cps st"
      by (auto simp add: Let_def)
    with Cons show ?thesis by simp
  next
    case True
    let ?st1 = "st\<lparr>m_clause_filters :=
        init_clause_filter_push (get_clause_filter ?c, cp) (lits ?c) (m_clause_filters st)\<rparr>"
    have "index_distinct ?st1"
      unfolding index_distinct_def
    proof (intro allI ballI)
      fix v cf assume "cf \<in> set (m_clause_filters ?st1 v)"
      then have "cf = (get_clause_filter ?c, cp) \<or> cf \<in> set (m_clause_filters st v)"
        using init_clause_filter_push_set [of "(get_clause_filter ?c, cp)" "lits ?c" "m_clause_filters st" v]
        by auto
      then show "all_distinct (s_heap ?st1 (snd cf))"
        using True Cons.prems by (auto simp add: index_distinct_def)
    qed
    from Cons.IH [OF this] True show ?thesis by (simp add: Let_def)
  qed
qed

lemma init_clause_filter_index: "index_distinct (init_clause_filter st)"
proof -
  have "index_distinct (st\<lparr>m_clause_filters := (\<lambda>v. [])\<rparr>)" by (simp add: index_distinct_def)
  then show ?thesis
    by (simp add: init_clause_filter_def init_clause_filter_clauses_index)
qed

text \<open>
  C10: no run of \<open>operator()\<close> fails the assertion \<open>c2.size() <= m_vars.size()\<close> of
  \<open>extract_lut\<close> (line 144): the index holds only clauses with pairwise distinct
  variables, and the visited variables are those of the seed.
\<close>

theorem size_assertion_never_fails:
  "operator_call idx clauses st \<noteq> Inl (Assertion 144)"
proof
  assume fail: "operator_call idx clauses st = Inl (Assertion 144)"
  let ?st = "st\<lparr>m_removed_clauses := []\<rparr>"
  from fail obtain st0 where init: "init_masks 0 (init_clause_filter ?st) = Some st0"
    and sizes: "operator_sizes idx 2 (m_max_lut_size ?st) clauses (unmark_used_all clauses st0)
                  = Inl (Assertion 144)"
    by (auto simp add: operator_call_def Let_def split: if_splits option.splits sum.splits)
  from init_masks_state [OF init] obtain f where st0: "st0 = (init_clause_filter ?st)\<lparr>m_masks := f\<rparr>"
    by blast
  have "index_distinct (init_clause_filter ?st)" by (rule init_clause_filter_index)
  then have "index_distinct (unmark_used_all clauses st0)"
    by (simp add: st0 unmark_used_all_eq index_distinct_def all_distinct_def)
  from operator_sizes_no_size_failure [OF this] sizes show False by blast
qed

theorem size_assertion_never_fails_witness:
  "\<not> isl (operator_call lit_index [0, 1, 2, 3] example_clauses)
   \<and> fst (projr (operator_call lit_index [0, 1, 2, 3] example_clauses)) = []
   \<and> m_removed_clauses (snd (projr (operator_call lit_index [0, 1, 2, 3] example_clauses)))
       = [0, 1, 2, 3]
   \<and> operator_call lit_index [0, 1, 2, 3] example_clauses \<noteq> Inl (Assertion 144)"
proof -
  have "\<not> isl (operator_call lit_index [0, 1, 2, 3] example_clauses)
   \<and> fst (projr (operator_call lit_index [0, 1, 2, 3] example_clauses)) = []
   \<and> m_removed_clauses (snd (projr (operator_call lit_index [0, 1, 2, 3] example_clauses)))
       = [0, 1, 2, 3]"
    by code_simp
  with size_assertion_never_fails [of lit_index "[0, 1, 2, 3]" example_clauses]
  show ?thesis by blast
qed

end
